theory Spec2Isabelle
  imports Main
begin

section \<open>JavaScript strings\<close>

text \<open>
  A string is a \<^typ>\<open>string\<close>: a list of code units in the range 0-255, so that
  \<open>length\<close> is JavaScript's \<open>.length\<close>. The case conversions act on the letters
  a-z and A-Z and leave every other code unit as it is.
\<close>

definition startsWith :: "string \<Rightarrow> string \<Rightarrow> bool" where
  "startsWith s p = (take (length p) s = p)"

definition endsWith :: "string \<Rightarrow> string \<Rightarrow> bool" where
  "endsWith s p = (length p \<le> length s \<and> drop (length s - length p) s = p)"

text \<open>\<open>s.slice(0, -n)\<close>: everything but the last \<open>n\<close> characters.\<close>

definition slice_end :: "string \<Rightarrow> nat \<Rightarrow> string" where
  "slice_end s n = take (length s - n) s"

text \<open>\<open>s.substring(n)\<close>.\<close>

definition substring_from :: "string \<Rightarrow> nat \<Rightarrow> string" where
  "substring_from s n = drop n s"

definition is_upper :: "char \<Rightarrow> bool" where
  "is_upper c = (65 \<le> (of_char c :: nat) \<and> (of_char c :: nat) \<le> 90)"

definition is_lower :: "char \<Rightarrow> bool" where
  "is_lower c = (97 \<le> (of_char c :: nat) \<and> (of_char c :: nat) \<le> 122)"

definition is_digit :: "char \<Rightarrow> bool" where
  "is_digit c = (48 \<le> (of_char c :: nat) \<and> (of_char c :: nat) \<le> 57)"

definition upper_char :: "char \<Rightarrow> char" where
  "upper_char c = (if is_lower c then char_of ((of_char c :: nat) - 32) else c)"

definition lower_char :: "char \<Rightarrow> char" where
  "lower_char c = (if is_upper c then char_of ((of_char c :: nat) + 32) else c)"

definition toUpperCase :: "string \<Rightarrow> string" where
  "toUpperCase s = map upper_char s"

definition toLowerCase :: "string \<Rightarrow> string" where
  "toLowerCase s = map lower_char s"

section \<open>Roles and permissions\<close>

text \<open>
  Both \<open>getPermissions\<close> (lib/auth.ts) and \<open>hasPermission\<close> (shared/utils.ts) index an
  object literal with the role string. The literal has four own keys; any other key falls
  through to \<open>Object.prototype\<close>, whose members are functions or objects (truthy, and
  without an \<open>includes\<close> method), and every remaining key yields \<open>undefined\<close>.
\<close>

definition object_prototype_keys :: "string list" where
  "object_prototype_keys =
     [''constructor'', ''__defineGetter__'', ''__defineSetter__'', ''hasOwnProperty'',
      ''__lookupGetter__'', ''__lookupSetter__'', ''isPrototypeOf'',
      ''propertyIsEnumerable'', ''toString'', ''valueOf'', ''__proto__'',
      ''toLocaleString'']"

datatype js_lookup = Own "string list" | Inherited string | Undefined

definition permissions_table :: "string \<Rightarrow> js_lookup" where
  "permissions_table k =
     (if k = ''admin'' then Own [''*'']
      else if k = ''editor'' then Own [''content:*'', ''media:*'', ''comments:moderate'']
      else if k = ''author'' then Own [''content:create'', ''content:edit:own'', ''media:upload'']
      else if k = ''viewer'' then Own [''content:read'', ''comments:create'']
      else if List.member object_prototype_keys k then Inherited k
      else Undefined)"

datatype js_error = TypeError

text \<open>
  \<open>getPermissions(role)\<close>: \<open>permissions[role.toLowerCase()] || []\<close>. An inherited member
  is truthy and is returned as it is.
\<close>

definition getPermissions :: "string \<Rightarrow> js_lookup" where
  "getPermissions role =
     (case permissions_table (toLowerCase role) of
        Undefined \<Rightarrow> Own []
      | r \<Rightarrow> r)"

text \<open>One entry of the role's list against the requested permission.\<close>

definition permission_matches :: "string \<Rightarrow> string \<Rightarrow> bool" where
  "permission_matches permission p =
     (if endsWith p '':*'' then startsWith permission (slice_end p 2)
      else p = permission)"

text \<open>
  \<open>hasPermission(userRole, permission)\<close>: the role is not lower-cased here. Calling
  \<open>.includes\<close> on an inherited member raises a TypeError.
\<close>

definition hasPermission :: "string \<Rightarrow> string \<Rightarrow> js_error + bool" where
  "hasPermission userRole permission =
     (case permissions_table userRole of
        Inherited k \<Rightarrow> Inl TypeError
      | Undefined \<Rightarrow> Inr False
      | Own rolePermissions \<Rightarrow>
          (if List.member rolePermissions ''*'' then Inr True
           else Inr (list_ex (permission_matches permission) rolePermissions)))"

section \<open>Numbers as decimal strings\<close>

text \<open>
  The cache stores counters as strings: \<open>(parseInt(current || '0', 10) + 1).toString()\<close>.
  A JavaScript number is modelled as \<^typ>\<open>int option\<close>, \<open>None\<close> being \<open>NaN\<close>.
\<close>

type_synonym js_number = "int option"

text \<open>
  White space, as \<open>trim\<close>, \<open>parseInt\<close> and the class \<open>\s\<close> of a regular expression see it:
  tab, line feed, vertical tab, form feed, carriage return, space and the no-break space
  U+00A0 are the white-space code units below 256.
\<close>

definition is_space :: "char \<Rightarrow> bool" where
  "is_space c = List.member [9, 10, 11, 12, 13, 32, 160 :: nat] (of_char c)"

definition digit_char :: "nat \<Rightarrow> char" where
  "digit_char d = char_of (48 + d)"

definition digit_val :: "char \<Rightarrow> nat" where
  "digit_val c = of_char c - 48"

fun nat_toString :: "nat \<Rightarrow> string" where
  "nat_toString n =
     (if n < 10 then [digit_char n] else nat_toString (n div 10) @ [digit_char (n mod 10)])"

definition toString :: "js_number \<Rightarrow> string" where
  "toString x =
     (case x of
        None \<Rightarrow> ''NaN''
      | Some i \<Rightarrow> (if i < 0 then CHR ''-'' # nat_toString (nat (- i)) else nat_toString (nat i)))"

definition digits_value :: "string \<Rightarrow> nat" where
  "digits_value ds = foldl (\<lambda>acc c. acc * 10 + digit_val c) 0 ds"

text \<open>
  \<open>parseInt(s, 10)\<close>: leading white space is skipped, one sign is read, then the longest
  run of digits; no digit at all gives \<open>NaN\<close>.
\<close>

definition parseInt :: "string \<Rightarrow> js_number" where
  "parseInt s =
     (let t = dropWhile is_space s;
          neg = (t \<noteq> [] \<and> hd t = CHR ''-'');
          u = (if t \<noteq> [] \<and> (hd t = CHR ''-'' \<or> hd t = CHR ''+'') then tl t else t);
          ds = takeWhile is_digit u
      in if ds = [] then None
         else Some (if neg then - int (digits_value ds) else int (digits_value ds)))"

definition js_add :: "js_number \<Rightarrow> int \<Rightarrow> js_number" where
  "js_add x k = map_option (\<lambda>i. i + k) x"

section \<open>The in-memory cache (SimpleCache)\<close>

text \<open>
  Times are \<open>Date.now()\<close> in milliseconds. Every operation of the cache reads the clock;
  the model passes the reading as \<open>now\<close>, one reading for each call of a public
  operation.
\<close>

record cache_item =
  item_value :: string
  item_expiry :: int

type_synonym cache = "string \<rightharpoonup> cache_item"

definition cache_get :: "cache \<Rightarrow> string \<Rightarrow> int \<Rightarrow> string option \<times> cache" where
  "cache_get c key now =
     (case c key of
        None \<Rightarrow> (None, c)
      | Some item \<Rightarrow>
          (if now > item_expiry item then (None, c(key := None))
           else (Some (item_value item), c)))"

text \<open>\<open>expirySeconds\<close> is optional, and \<open>0\<close> is falsy: both take the one-hour default.\<close>

definition cache_set :: "cache \<Rightarrow> string \<Rightarrow> string \<Rightarrow> int option \<Rightarrow> int \<Rightarrow> cache" where
  "cache_set c key v expirySeconds now =
     (let expiry = (case expirySeconds of
                      None \<Rightarrow> now + 3600 * 1000
                    | Some secs \<Rightarrow> (if secs = 0 then now + 3600 * 1000 else now + secs * 1000))
      in c(key \<mapsto> \<lparr>item_value = v, item_expiry = expiry\<rparr>))"

definition cache_incr :: "cache \<Rightarrow> string \<Rightarrow> int \<Rightarrow> js_number \<times> cache" where
  "cache_incr c key now =
     (let (current, c1) = cache_get c key now;
          newValue = toString (js_add (parseInt (case current of
                                                   None \<Rightarrow> ''0''
                                                 | Some v \<Rightarrow> (if v = [] then ''0'' else v))) 1);
          c2 = cache_set c1 key newValue None now
      in (parseInt newValue, c2))"

definition cache_expire :: "cache \<Rightarrow> string \<Rightarrow> int \<Rightarrow> int \<Rightarrow> cache" where
  "cache_expire c key seconds now =
     (case c key of
        None \<Rightarrow> c
      | Some item \<Rightarrow> c(key \<mapsto> item\<lparr>item_expiry := now + seconds * 1000\<rparr>))"

section \<open>The rate limiter\<close>

datatype bucket = anonymous | authenticated | api_key

fun bucket_name :: "bucket \<Rightarrow> string" where
  "bucket_name anonymous = ''anonymous''"
| "bucket_name authenticated = ''authenticated''"
| "bucket_name api_key = ''api_key''"

fun limits :: "bucket \<Rightarrow> int" where
  "limits anonymous = 100"
| "limits authenticated = 1000"
| "limits api_key = 10000"

record rate_result =
  allowed :: bool
  remaining :: js_number
  resetAt :: int

definition rate_key :: "bucket \<Rightarrow> string \<Rightarrow> string" where
  "rate_key type identifier = ''rate_limit:'' @ bucket_name type @ '':'' @ identifier"

definition window :: int where
  "window = 3600"

text \<open>\<open>NaN\<close> compares false with everything, and \<open>Math.max(0, NaN)\<close> is \<open>NaN\<close>.\<close>

definition checkLimit :: "cache \<Rightarrow> string \<Rightarrow> bucket \<Rightarrow> int \<Rightarrow> rate_result \<times> cache" where
  "checkLimit c identifier type now =
     (let key = rate_key type identifier;
          limit = limits type;
          (current, c1) = cache_incr c key now;
          c2 = (if current = Some 1 then cache_expire c1 key window now else c1)
      in (\<lparr>allowed = (case current of None \<Rightarrow> False | Some n \<Rightarrow> n \<le> limit),
           remaining = map_option (\<lambda>n. max 0 (limit - n)) current,
           resetAt = now + window * 1000\<rparr>, c2))"

text \<open>Requests made one after the other, each at its own clock reading.\<close>

fun checkLimits :: "cache \<Rightarrow> string \<Rightarrow> bucket \<Rightarrow> int list \<Rightarrow> rate_result list \<times> cache" where
  "checkLimits c identifier type [] = ([], c)"
| "checkLimits c identifier type (t # ts) =
     (let (r, c1) = checkLimit c identifier type t;
          (rs, c2) = checkLimits c1 identifier type ts
      in (r # rs, c2))"

text \<open>
  What the k-th request of a window is expected to return, and the cache entry a window
  holds after its k-th request at time \<open>t\<close>.
\<close>

definition expected_result :: "bucket \<Rightarrow> nat \<Rightarrow> int \<Rightarrow> rate_result" where
  "expected_result type k t =
     \<lparr>allowed = (int k \<le> limits type),
      remaining = Some (max 0 (limits type - int k)),
      resetAt = t + window * 1000\<rparr>"

fun expected_results :: "bucket \<Rightarrow> nat \<Rightarrow> int list \<Rightarrow> rate_result list" where
  "expected_results type k [] = []"
| "expected_results type k (t # ts) = expected_result type k t # expected_results type (Suc k) ts"

definition counter_item :: "nat \<Rightarrow> int \<Rightarrow> cache_item" where
  "counter_item k t = \<lparr>item_value = toString (Some (int k)), item_expiry = t + window * 1000\<rparr>"

text \<open>
  Request times that stay in one window. \<open>single_window\<close> is the fixed window of the
  specification: the times do not decrease and the last one is at most 3600 s after the
  first. \<open>within_expiry\<close> is what the code needs: each request arrives no later than
  3600 s after the one before it.
\<close>

definition single_window :: "int list \<Rightarrow> bool" where
  "single_window ts =
     (case ts of [] \<Rightarrow> True | t # us \<Rightarrow> sorted (t # us) \<and> last (t # us) \<le> t + window * 1000)"

fun within_expiry :: "int \<Rightarrow> int list \<Rightarrow> bool" where
  "within_expiry t [] = True"
| "within_expiry t (u # us) = (u \<le> t + window * 1000 \<and> within_expiry u us)"

section \<open>Tokens and the libraries behind them\<close>

record TokenPayload =
  userId :: string
  payload_email :: string
  payload_role :: string

text \<open>
  \<open>jsonwebtoken\<close> and \<open>bcryptjs\<close> are libraries outside the repository, and the four
  \<open>JWT_*\<close> constants are read from the process environment. They are parameters of the
  model. \<open>jwt.sign(payload, secret, {expiresIn})\<close> is called without a \<open>jwtid\<close> or any
  other nonce: its result is a function of the payload, the secret, the lifetime and the
  clock in whole seconds (the \<open>iat\<close> stamp). \<open>jwt.verify(token, secret)\<close> returns the payload
  or throws (\<open>None\<close>); it reads the clock in whole seconds too. \<open>bcrypt.hash\<close> draws a
  random salt, which is an argument here. \<open>prisma_delete_raises\<close> says what the
  store's \<open>delete\<close> does when the record is not there (see the store below).
\<close>

record env =
  JWT_ACCESS_SECRET :: string
  JWT_REFRESH_SECRET :: string
  JWT_ACCESS_EXPIRY :: string
  JWT_REFRESH_EXPIRY :: string
  jwt_sign :: "TokenPayload \<Rightarrow> string \<Rightarrow> string \<Rightarrow> int \<Rightarrow> string"
  jwt_verify :: "string \<Rightarrow> string \<Rightarrow> int \<Rightarrow> TokenPayload option"
  bcrypt_hash :: "string \<Rightarrow> nat \<Rightarrow> string \<Rightarrow> string"
  bcrypt_compare :: "string \<Rightarrow> string \<Rightarrow> bool"
  prisma_delete_raises :: bool

definition clock_seconds :: "int \<Rightarrow> int" where
  "clock_seconds now = now div 1000"

definition hashPassword :: "env \<Rightarrow> string \<Rightarrow> string \<Rightarrow> string" where
  "hashPassword E password salt = bcrypt_hash E password 12 salt"

definition verifyPassword :: "env \<Rightarrow> string \<Rightarrow> string \<Rightarrow> bool" where
  "verifyPassword E password hash = bcrypt_compare E password hash"

definition generateAccessToken :: "env \<Rightarrow> TokenPayload \<Rightarrow> int \<Rightarrow> string" where
  "generateAccessToken E payload now =
     jwt_sign E payload (JWT_ACCESS_SECRET E) (JWT_ACCESS_EXPIRY E) (clock_seconds now)"

definition generateRefreshToken :: "env \<Rightarrow> TokenPayload \<Rightarrow> int \<Rightarrow> string" where
  "generateRefreshToken E payload now =
     jwt_sign E payload (JWT_REFRESH_SECRET E) (JWT_REFRESH_EXPIRY E) (clock_seconds now)"

definition verifyAccessToken :: "env \<Rightarrow> string \<Rightarrow> int \<Rightarrow> TokenPayload option" where
  "verifyAccessToken E token now = jwt_verify E token (JWT_ACCESS_SECRET E) (clock_seconds now)"

definition verifyRefreshToken :: "env \<Rightarrow> string \<Rightarrow> int \<Rightarrow> TokenPayload option" where
  "verifyRefreshToken E token now = jwt_verify E token (JWT_REFRESH_SECRET E) (clock_seconds now)"

text \<open>\<open>extractToken(authHeader)\<close>: a missing header is \<open>null\<close>; \<open>null\<close> and \<open>''\<close> are falsy.\<close>

definition extractToken :: "string option \<Rightarrow> string option" where
  "extractToken authHeader =
     (case authHeader of
        None \<Rightarrow> None
      | Some h \<Rightarrow> (if h = [] \<or> \<not> startsWith h ''Bearer '' then None
                   else Some (substring_from h 7)))"

section \<open>HTTP responses\<close>

record AuthUser =
  auth_id :: string
  auth_email :: string
  auth_role :: string
  permissions :: js_lookup

record AuthPayload =
  user :: AuthUser
  accessToken :: string
  refreshToken :: string

datatype details =
  ValidationErrors "string list"
| ErrorMessage string
| RateLimitDetails js_number int

text \<open>
  The body \<open>{success, data?, error?: {error, message, statusCode, details?}, timestamp}\<close>.
  The inner \<open>error\<close> field is called \<open>label\<close> here; \<open>timestamp\<close> is the clock reading
  that \<open>new Date().toISOString()\<close> prints.
\<close>

record ApiError =
  label :: string
  message :: string
  statusCode :: nat
  details :: "details option"

record ApiResponse =
  success :: bool
  data :: "AuthPayload option"
  error :: "ApiError option"
  timestamp :: int

record response =
  status :: nat
  body :: ApiResponse

definition error_response :: "nat \<Rightarrow> string \<Rightarrow> string \<Rightarrow> details option \<Rightarrow> int \<Rightarrow> response" where
  "error_response code lbl msg det now =
     \<lparr>status = code,
      body = \<lparr>success = False, data = None,
              error = Some \<lparr>label = lbl, message = msg, statusCode = code, details = det\<rparr>,
              timestamp = now\<rparr>\<rparr>"

definition success_response :: "nat \<Rightarrow> AuthPayload \<Rightarrow> int \<Rightarrow> response" where
  "success_response code payload now =
     \<lparr>status = code,
      body = \<lparr>success = True, data = Some payload, error = None, timestamp = now\<rparr>\<rparr>"

section \<open>The middleware\<close>

text \<open>
  A request as the middleware reads it: the path, the client address and the headers
  (looked up by lower-case name). The middleware answers with a JSON response, or lets
  the request through to the route handler (\<open>NextResponse.next\<close>), with replaced request
  headers when it has verified a token.
\<close>

record request =
  path :: string
  ip :: "string option"
  headers :: "string \<rightharpoonup> string"

datatype mw_result = Next "(string \<rightharpoonup> string) option" | Json response

definition is_public_route :: "string \<Rightarrow> bool" where
  "is_public_route p =
     (startsWith p ''/_next'' \<or> startsWith p ''/static'' \<or> p = ''/api/auth/login''
      \<or> p = ''/api/auth/register'' \<or> p = ''/api/auth/refresh'')"

text \<open>\<open>req.ip || 'anonymous'\<close> and \<open>authHeader ? 'authenticated' : 'anonymous'\<close>.\<close>

definition rate_identifier :: "request \<Rightarrow> string" where
  "rate_identifier req =
     (case ip req of None \<Rightarrow> ''anonymous'' | Some a \<Rightarrow> (if a = [] then ''anonymous'' else a))"

definition rateLimitType :: "request \<Rightarrow> bucket" where
  "rateLimitType req =
     (case headers req ''authorization'' of
        None \<Rightarrow> anonymous
      | Some h \<Rightarrow> (if h = [] then anonymous else authenticated))"

definition too_many_requests :: "rate_result \<Rightarrow> int \<Rightarrow> response" where
  "too_many_requests rateLimit now =
     error_response 429 ''Too Many Requests'' ''Rate limit exceeded''
       (Some (RateLimitDetails (remaining rateLimit) (resetAt rateLimit))) now"

definition no_token_response :: "int \<Rightarrow> response" where
  "no_token_response now =
     error_response 401 ''Unauthorized'' ''No authentication token provided'' None now"

definition invalid_token_response :: "int \<Rightarrow> response" where
  "invalid_token_response now =
     error_response 401 ''Unauthorized'' ''Invalid or expired token'' None now"

text \<open>
  \<open>Headers.set(name, value)\<close> of the runtime, as the Fetch standard defines it: the value
  loses its leading and trailing HTTP white space (tab, line feed, carriage return and
  space), and a value that then still holds a NUL, a line feed or a carriage return is a
  \<open>TypeError\<close>. The three names set by the middleware are valid header names. (A code
  unit above 255 in the value would be a \<open>TypeError\<close> as well; strings here have none.)
\<close>

definition http_whitespace :: "char \<Rightarrow> bool" where
  "http_whitespace c = List.member [9, 10, 13, 32 :: nat] (of_char c)"

definition normalize_value :: "string \<Rightarrow> string" where
  "normalize_value v = rev (dropWhile http_whitespace (rev (dropWhile http_whitespace v)))"

definition forbidden_in_value :: "char \<Rightarrow> bool" where
  "forbidden_in_value c = List.member [0, 10, 13 :: nat] (of_char c)"

definition header_value_ok :: "string \<Rightarrow> bool" where
  "header_value_ok v = (\<not> list_ex forbidden_in_value (normalize_value v))"

definition headers_set ::
  "(string \<rightharpoonup> string) \<Rightarrow> string \<Rightarrow> string \<Rightarrow> js_error + (string \<rightharpoonup> string)" where
  "headers_set hs name v =
     (if \<not> header_value_ok v then Inl TypeError
      else Inr (hs(name \<mapsto> normalize_value v)))"

text \<open>\<open>new Headers(req.headers)\<close> and the three calls of \<open>set\<close>, the first failure ending them.\<close>

definition user_headers :: "request \<Rightarrow> TokenPayload \<Rightarrow> js_error + (string \<rightharpoonup> string)" where
  "user_headers req payload =
     (case headers_set (headers req) ''x-user-id'' (userId payload) of
        Inl e \<Rightarrow> Inl e
      | Inr h1 \<Rightarrow>
          (case headers_set h1 ''x-user-email'' (payload_email payload) of
             Inl e \<Rightarrow> Inl e
           | Inr h2 \<Rightarrow> headers_set h2 ''x-user-role'' (payload_role payload)))"

text \<open>
  The authentication step, reached by the requests the rate limiter admits. Verification
  and the building of the headers are in one \<open>try\<close> block: whatever either throws is
  answered with the same 401.
\<close>

definition authenticate :: "env \<Rightarrow> request \<Rightarrow> int \<Rightarrow> mw_result" where
  "authenticate E req now =
     (case extractToken (headers req ''authorization'') of
        None \<Rightarrow> Json (no_token_response now)
      | Some token \<Rightarrow>
          (if token = [] then Json (no_token_response now)
           else (case verifyAccessToken E token now of
                   None \<Rightarrow> Json (invalid_token_response now)
                 | Some payload \<Rightarrow>
                     (case user_headers req payload of
                        Inl e \<Rightarrow> Json (invalid_token_response now)
                      | Inr requestHeaders \<Rightarrow> Next (Some requestHeaders)))))"

definition middleware :: "env \<Rightarrow> cache \<Rightarrow> request \<Rightarrow> int \<Rightarrow> mw_result \<times> cache" where
  "middleware E c req now =
     (if is_public_route (path req) then (Next None, c)
      else
        (let (rateLimit, c1) = checkLimit c (rate_identifier req) (rateLimitType req) now
         in if \<not> allowed rateLimit then (Json (too_many_requests rateLimit now), c1)
            else if startsWith (path req) ''/api'' then (authenticate E req now, c1)
            else (Next None, c1)))"

text \<open>
  \<open>config.matcher\<close>: the framework calls the middleware only for a path that the pattern
  \<open>/((?!_next/static|_next/image|favicon.ico).*)\<close> matches from its first character to
  its last: a slash, followed by anything that does not begin with \<open>_next/static\<close>, with
  \<open>_next/image\<close> or with \<open>favicon\<close>, one character and \<open>ico\<close>. The dot of a pattern stands
  for any character but a line terminator (line feed and carriage return, below 256).
  A request for any other path goes on to its route as it is, and the cache is not
  touched.
\<close>

definition regex_dot :: "char \<Rightarrow> bool" where
  "regex_dot c = (\<not> List.member [10, 13 :: nat] (of_char c))"

definition favicon_ico :: "string \<Rightarrow> bool" where
  "favicon_ico s = (startsWith s ''favicon'' \<and> take 3 (drop 8 s) = ''ico'' \<and> regex_dot (s ! 7))"

definition config_matcher :: "string \<Rightarrow> bool" where
  "config_matcher p =
     (startsWith p ''/''
      \<and> \<not> startsWith (drop 1 p) ''_next/static'' \<and> \<not> startsWith (drop 1 p) ''_next/image''
      \<and> \<not> favicon_ico (drop 1 p) \<and> list_all regex_dot (drop 1 p))"

definition invoke_middleware :: "env \<Rightarrow> cache \<Rightarrow> request \<Rightarrow> int \<Rightarrow> mw_result \<times> cache" where
  "invoke_middleware E c req now =
     (if config_matcher (path req) then middleware E c req now else (Next None, c))"

text \<open>Requests served one after the other, each at its own clock reading.\<close>

fun serve_requests :: "env \<Rightarrow> cache \<Rightarrow> (request \<times> int) list \<Rightarrow> mw_result list \<times> cache" where
  "serve_requests E c [] = ([], c)"
| "serve_requests E c ((req, now) # reqs) =
     (let (r, c1) = invoke_middleware E c req now;
          (rs, c2) = serve_requests E c1 reqs
      in (r # rs, c2))"

text \<open>
  The paths that never reach the rate limiter: those the framework does not hand to the
  middleware and those the middleware skips. A protected route is a path under \<open>/api\<close>
  that is not of these.
\<close>

definition exempt :: "string \<Rightarrow> bool" where
  "exempt p = (\<not> config_matcher p \<or> is_public_route p)"

definition protected_route :: "string \<Rightarrow> bool" where
  "protected_route p = (startsWith p ''/api'' \<and> \<not> exempt p)"

text \<open>
  What a request that got past the exemptions is answered, given the rate limiter's
  verdict on it.
\<close>

definition gate :: "env \<Rightarrow> request \<Rightarrow> int \<Rightarrow> rate_result \<Rightarrow> mw_result" where
  "gate E req now rateLimit =
     (if \<not> allowed rateLimit then Json (too_many_requests rateLimit now)
      else if startsWith (path req) ''/api'' then authenticate E req now
      else Next None)"

section \<open>Validation\<close>

text \<open>
  Regular expressions, enough for the literals of shared/validation: a character class
  is a predicate. \<open>regex_matches\<close> decides whether the whole string matches, which is
  what \<open>test\<close> decides for a pattern anchored with \<open>^\<close> and \<open>$\<close>.
\<close>

datatype regex =
  Zero
| One
| Atom "char \<Rightarrow> bool"
| Alt regex regex
| Seq regex regex
| Star regex

fun nullable :: "regex \<Rightarrow> bool" where
  "nullable Zero = False"
| "nullable One = True"
| "nullable (Atom P) = False"
| "nullable (Alt r s) = (nullable r \<or> nullable s)"
| "nullable (Seq r s) = (nullable r \<and> nullable s)"
| "nullable (Star r) = True"

fun deriv :: "char \<Rightarrow> regex \<Rightarrow> regex" where
  "deriv c Zero = Zero"
| "deriv c One = Zero"
| "deriv c (Atom P) = (if P c then One else Zero)"
| "deriv c (Alt r s) = Alt (deriv c r) (deriv c s)"
| "deriv c (Seq r s) =
     (if nullable r then Alt (Seq (deriv c r) s) (deriv c s) else Seq (deriv c r) s)"
| "deriv c (Star r) = Seq (deriv c r) (Star r)"

fun regex_matches :: "regex \<Rightarrow> string \<Rightarrow> bool" where
  "regex_matches r [] = nullable r"
| "regex_matches r (c # cs) = regex_matches (deriv c r) cs"

text \<open>
  The language of a regular expression, to say in plain terms which strings the email
  pattern accepts.
\<close>

inductive_set star :: "string set \<Rightarrow> string set" for A :: "string set" where
  star_empty: "[] \<in> star A"
| star_more: "u \<in> A \<Longrightarrow> v \<in> star A \<Longrightarrow> u @ v \<in> star A"

fun lang :: "regex \<Rightarrow> string set" where
  "lang Zero = {}"
| "lang One = {[]}"
| "lang (Atom P) = {[c] | c. P c}"
| "lang (Alt r s) = lang r \<union> lang s"
| "lang (Seq r s) = {u @ v | u v. u \<in> lang r \<and> v \<in> lang s}"
| "lang (Star r) = star (lang r)"

definition Plus :: "regex \<Rightarrow> regex" where
  "Plus r = Seq r (Star r)"

text \<open>\<open>[^\s@]\<close>, and the pattern \<open>/^[^\s@]+@[^\s@]+\.[^\s@]+$/\<close>.\<close>

definition not_space_or_at :: "char \<Rightarrow> bool" where
  "not_space_or_at c = (\<not> is_space c \<and> c \<noteq> CHR ''@'')"

definition emailRegex :: regex where
  "emailRegex =
     Seq (Plus (Atom not_space_or_at))
       (Seq (Atom (\<lambda>c. c = CHR ''@''))
          (Seq (Plus (Atom not_space_or_at))
             (Seq (Atom (\<lambda>c. c = CHR ''.'')) (Plus (Atom not_space_or_at)))))"

text \<open>\<open>s.trim()\<close>, and \<open>!x\<close> for a field that is a string or missing.\<close>

definition trim :: "string \<Rightarrow> string" where
  "trim s = rev (dropWhile is_space (rev (dropWhile is_space s)))"

definition falsy :: "string option \<Rightarrow> bool" where
  "falsy x = (case x of None \<Rightarrow> True | Some s \<Rightarrow> s = [])"

record ValidationResult =
  valid :: bool
  errors :: "string list"

definition validation_result :: "string list \<Rightarrow> ValidationResult" where
  "validation_result errs = \<lparr>valid = (length errs = 0), errors = errs\<rparr>"

definition validateEmail :: "string option \<Rightarrow> ValidationResult" where
  "validateEmail email =
     validation_result
       (case email of
          None \<Rightarrow> [''Email is required'']
        | Some e \<Rightarrow>
            (if e = [] then [''Email is required'']
             else if \<not> regex_matches emailRegex e then [''Invalid email format'']
             else []))"

text \<open>The unanchored \<open>/[A-Z]/\<close>, \<open>/[a-z]/\<close> and \<open>/[0-9]/\<close> look for one such character.\<close>

definition validatePassword :: "string option \<Rightarrow> ValidationResult" where
  "validatePassword password =
     validation_result
       (case password of
          None \<Rightarrow> [''Password is required'']
        | Some p \<Rightarrow>
            (if p = [] then [''Password is required'']
             else
               (if length p < 8 then [''Password must be at least 8 characters long''] else [])
               @ (if \<not> list_ex is_upper p
                  then [''Password must contain at least one uppercase letter''] else [])
               @ (if \<not> list_ex is_lower p
                  then [''Password must contain at least one lowercase letter''] else [])
               @ (if \<not> list_ex is_digit p
                  then [''Password must contain at least one number''] else [])))"

text \<open>
  The body of a registration request. A field is \<open>None\<close> when the JSON body does not
  have it; fields that are not strings are outside the model.
\<close>

record register_body =
  reg_email :: "string option"
  reg_password :: "string option"
  reg_name :: "string option"
  reg_role :: "string option"

definition validateRegistration :: "register_body \<Rightarrow> ValidationResult" where
  "validateRegistration input =
     (let emailValidation = validateEmail (reg_email input);
          errors1 = (if \<not> valid emailValidation then errors emailValidation else []);
          passwordValidation = validatePassword (reg_password input);
          errors2 = (if \<not> valid passwordValidation then errors passwordValidation else []);
          errors3 = (case reg_name input of
                       None \<Rightarrow> [''Name must be at least 2 characters long'']
                     | Some n \<Rightarrow>
                         (if n = [] \<or> length (trim n) < 2
                          then [''Name must be at least 2 characters long''] else []))
      in validation_result (errors1 @ errors2 @ errors3))"

text \<open>
  The registration rules in the words of the specification: the email has the email
  format, the password has at least 8 characters with an upper-case letter, a lower-case
  letter and a digit, and the trimmed name has at least 2 characters.
\<close>

definition email_has_format :: "string option \<Rightarrow> bool" where
  "email_has_format email = (case email of None \<Rightarrow> False | Some e \<Rightarrow> regex_matches emailRegex e)"

definition password_is_strong :: "string option \<Rightarrow> bool" where
  "password_is_strong password =
     (case password of
        None \<Rightarrow> False
      | Some p \<Rightarrow> 8 \<le> length p \<and> list_ex is_upper p \<and> list_ex is_lower p \<and> list_ex is_digit p)"

definition name_is_long_enough :: "string option \<Rightarrow> bool" where
  "name_is_long_enough name = (case name of None \<Rightarrow> False | Some n \<Rightarrow> 2 \<le> length (trim n))"

section \<open>The store\<close>

record User =
  user_id :: string
  user_email :: string
  user_password :: string
  user_name :: string
  user_role :: string

record RefreshToken =
  token_id :: string
  token :: string
  token_userId :: string
  expiresAt :: int

record db =
  users :: "User list"
  refreshTokens :: "RefreshToken list"
  next_id :: nat

datatype db_error = UniqueConstraintFailed | RecordNotFound

definition error_message :: "db_error \<Rightarrow> string" where
  "error_message e =
     (case e of
        UniqueConstraintFailed \<Rightarrow> ''Unique constraint failed''
      | RecordNotFound \<Rightarrow> ''Record to delete does not exist'')"

text \<open>
  Modelled from the spec: the Prisma schema and client (\<open>@/lib/prisma\<close>) are not among
  the sources. The specification gives the records: an identity with a unique id and a
  unique, case-sensitive email; a refresh-token record with a unique token string, the
  subject's id and an expiry; inserting a token string that already exists fails. Ids
  are drawn from a counter. A violated constraint is an exception in the handler.
\<close>

definition new_id :: "db \<Rightarrow> string" where
  "new_id d = ''c'' @ nat_toString (next_id d)"

definition user_findUnique :: "db \<Rightarrow> string \<Rightarrow> User option" where
  "user_findUnique d email = find (\<lambda>u. user_email u = email) (users d)"

definition user_create :: "db \<Rightarrow> string \<Rightarrow> string \<Rightarrow> string \<Rightarrow> string \<Rightarrow> db_error + User \<times> db" where
  "user_create d email password name role =
     (case user_findUnique d email of
        Some u \<Rightarrow> Inl UniqueConstraintFailed
      | None \<Rightarrow>
          (let u = \<lparr>user_id = new_id d, user_email = email, user_password = password,
                    user_name = name, user_role = role\<rparr>
           in Inr (u, d\<lparr>users := users d @ [u], next_id := Suc (next_id d)\<rparr>)))"

text \<open>\<open>findUnique({where: {token}, include: {user: true}})\<close>.\<close>

definition refreshToken_findUnique :: "db \<Rightarrow> string \<Rightarrow> (RefreshToken \<times> User option) option" where
  "refreshToken_findUnique d tok =
     (case find (\<lambda>r. token r = tok) (refreshTokens d) of
        None \<Rightarrow> None
      | Some r \<Rightarrow> Some (r, find (\<lambda>u. user_id u = token_userId r) (users d)))"

definition refreshToken_create :: "db \<Rightarrow> string \<Rightarrow> string \<Rightarrow> int \<Rightarrow> db_error + db" where
  "refreshToken_create d tok uid expires =
     (case find (\<lambda>r. token r = tok) (refreshTokens d) of
        Some r \<Rightarrow> Inl UniqueConstraintFailed
      | None \<Rightarrow>
          Inr (d\<lparr>refreshTokens := refreshTokens d
                    @ [\<lparr>token_id = new_id d, token = tok, token_userId = uid, expiresAt = expires\<rparr>],
                  next_id := Suc (next_id d)\<rparr>))"

text \<open>
  Modelled from the spec: \<open>delete({where: {id}})\<close> on a record that is not there. Prisma's
  \<open>delete\<close> raises; the specification's \<open>revoke\<close> is idempotent. The choice is the
  parameter \<open>strict\<close> (\<open>prisma_delete_raises\<close> of the environment): \<open>True\<close> raises,
  \<open>False\<close> leaves the store as it is.
\<close>

definition refreshToken_delete :: "bool \<Rightarrow> db \<Rightarrow> string \<Rightarrow> db_error + db" where
  "refreshToken_delete strict d rid =
     (if strict \<and> find (\<lambda>r. token_id r = rid) (refreshTokens d) = None then Inl RecordNotFound
      else Inr (d\<lparr>refreshTokens := filter (\<lambda>r. token_id r \<noteq> rid) (refreshTokens d)\<rparr>))"

section \<open>The register, login and refresh handlers\<close>

text \<open>
  A handler takes the store, the parsed JSON body and the clock reading, and returns
  its response and the store it leaves. Whatever is thrown inside the handler is caught
  and answered 500; writes made before the exception stay in the store.
\<close>

definition internal_error :: "string \<Rightarrow> string \<Rightarrow> int \<Rightarrow> response" where
  "internal_error msg detail now =
     error_response 500 ''Internal Server Error'' msg (Some (ErrorMessage detail)) now"

definition seven_days :: int where
  "seven_days = 7 * 24 * 60 * 60 * 1000"

definition token_payload :: "User \<Rightarrow> TokenPayload" where
  "token_payload u =
     \<lparr>userId = user_id u, payload_email = user_email u,
      payload_role = toLowerCase (user_role u)\<rparr>"

definition auth_payload :: "User \<Rightarrow> string \<Rightarrow> string \<Rightarrow> AuthPayload" where
  "auth_payload u access refresh =
     \<lparr>user = \<lparr>auth_id = user_id u, auth_email = user_email u,
              auth_role = toLowerCase (user_role u),
              permissions = getPermissions (toLowerCase (user_role u))\<rparr>,
      accessToken = access, refreshToken = refresh\<rparr>"

definition validation_failed :: "string list \<Rightarrow> int \<Rightarrow> response" where
  "validation_failed errs now =
     error_response 400 ''Validation Error'' ''Invalid input data''
       (Some (ValidationErrors errs)) now"

definition email_taken :: "int \<Rightarrow> response" where
  "email_taken now =
     error_response 409 ''Conflict'' ''User with this email already exists'' None now"

text \<open>
  \<open>POST /api/auth/register\<close>. \<open>role\<close> defaults to \<open>'viewer'\<close> when the body has no such
  field. A request that passes validation has its three fields; the last branch stands
  for what would be thrown otherwise.
\<close>

definition register :: "env \<Rightarrow> db \<Rightarrow> register_body \<Rightarrow> string \<Rightarrow> int \<Rightarrow> response \<times> db" where
  "register E d input salt now =
     (let validation = validateRegistration input
      in if \<not> valid validation then (validation_failed (errors validation) now, d)
         else
           (case (reg_email input, reg_password input, reg_name input) of
              (Some email, Some password, Some name) \<Rightarrow>
                (case user_findUnique d email of
                   Some existingUser \<Rightarrow> (email_taken now, d)
                 | None \<Rightarrow>
                     (let hashedPassword = hashPassword E password salt;
                          role = (case reg_role input of None \<Rightarrow> ''viewer'' | Some r \<Rightarrow> r)
                      in case user_create d email hashedPassword name (toUpperCase role) of
                           Inl e \<Rightarrow>
                             (internal_error ''Failed to register user'' (error_message e) now, d)
                         | Inr (u, d1) \<Rightarrow>
                             (let access = generateAccessToken E (token_payload u) now;
                                  refresh = generateRefreshToken E (token_payload u) now
                              in case refreshToken_create d1 refresh (user_id u) (now + seven_days) of
                                   Inl e \<Rightarrow>
                                     (internal_error ''Failed to register user''
                                        (error_message e) now, d1)
                                 | Inr d2 \<Rightarrow>
                                     (success_response 201 (auth_payload u access refresh) now,
                                      d2))))
            | _ \<Rightarrow> (internal_error ''Failed to register user'' ''TypeError'' now, d)))"

record login_body =
  login_email :: "string option"
  login_password :: "string option"

definition credentials_required :: "int \<Rightarrow> response" where
  "credentials_required now =
     error_response 400 ''Bad Request'' ''Email and password are required'' None now"

definition invalid_credentials :: "int \<Rightarrow> response" where
  "invalid_credentials now =
     error_response 401 ''Unauthorized'' ''Invalid credentials'' None now"

text \<open>\<open>POST /api/auth/login\<close>.\<close>

definition login :: "env \<Rightarrow> db \<Rightarrow> login_body \<Rightarrow> int \<Rightarrow> response \<times> db" where
  "login E d input now =
     (if falsy (login_email input) \<or> falsy (login_password input)
      then (credentials_required now, d)
      else
        (case (login_email input, login_password input) of
           (Some email, Some password) \<Rightarrow>
             (case user_findUnique d email of
                None \<Rightarrow> (invalid_credentials now, d)
              | Some u \<Rightarrow>
                  (if \<not> verifyPassword E password (user_password u)
                   then (invalid_credentials now, d)
                   else
                     (let access = generateAccessToken E (token_payload u) now;
                          refresh = generateRefreshToken E (token_payload u) now
                      in case refreshToken_create d refresh (user_id u) (now + seven_days) of
                           Inl e \<Rightarrow> (internal_error ''Failed to login'' (error_message e) now, d)
                         | Inr d1 \<Rightarrow>
                             (success_response 200 (auth_payload u access refresh) now, d1))))
         | _ \<Rightarrow> (internal_error ''Failed to login'' ''TypeError'' now, d)))"

definition refresh_token_required :: "int \<Rightarrow> response" where
  "refresh_token_required now =
     error_response 400 ''Bad Request'' ''Refresh token is required'' None now"

definition invalid_refresh_token :: "int \<Rightarrow> response" where
  "invalid_refresh_token now =
     error_response 401 ''Unauthorized'' ''Invalid or expired refresh token'' None now"

text \<open>
  \<open>POST /api/auth/refresh\<close>, in the four parts that its \<open>await\<close>s separate:
  \<^item> \<open>refresh_verify\<close>: the body is read and the presented token verified;
  \<^item> \<open>refresh_lookup\<close>: \<open>findUnique\<close>, then the expiry check and the minting of the new
    pair. The record's user is included by the lookup; were it missing, reading
    \<open>storedToken.user.id\<close> would throw;
  \<^item> \<open>refresh_delete\<close>: the \<open>delete\<close> of the old record, then the reading of the clock for
    the new record's expiry;
  \<^item> \<open>refresh_create\<close>: the \<open>create\<close> of the new record, then the answer.
\<close>

record rotation =
  storedToken :: RefreshToken
  owner :: User
  newAccessToken :: string
  newRefreshToken :: string

definition refresh_verify :: "env \<Rightarrow> string option \<Rightarrow> int \<Rightarrow> response + string" where
  "refresh_verify E input now =
     (case input of
        None \<Rightarrow> Inl (refresh_token_required now)
      | Some presented \<Rightarrow>
          (if presented = [] then Inl (refresh_token_required now)
           else
             (case verifyRefreshToken E presented now of
                None \<Rightarrow> Inl (invalid_refresh_token now)
              | Some payload \<Rightarrow> Inr presented)))"

definition refresh_lookup :: "env \<Rightarrow> db \<Rightarrow> string \<Rightarrow> int \<Rightarrow> response + rotation" where
  "refresh_lookup E d presented now =
     (case refreshToken_findUnique d presented of
        None \<Rightarrow> Inl (invalid_refresh_token now)
      | Some (stored, found_user) \<Rightarrow>
          (if expiresAt stored < now then Inl (invalid_refresh_token now)
           else
             (case found_user of
                None \<Rightarrow> Inl (internal_error ''Failed to refresh token'' ''TypeError'' now)
              | Some u \<Rightarrow>
                  Inr \<lparr>storedToken = stored, owner = u,
                       newAccessToken = generateAccessToken E (token_payload u) now,
                       newRefreshToken = generateRefreshToken E (token_payload u) now\<rparr>)))"

definition refresh_delete :: "env \<Rightarrow> db \<Rightarrow> rotation \<Rightarrow> int \<Rightarrow> response + db \<times> int" where
  "refresh_delete E d rot now =
     (case refreshToken_delete (prisma_delete_raises E) d (token_id (storedToken rot)) of
        Inl e \<Rightarrow> Inl (internal_error ''Failed to refresh token'' (error_message e) now)
      | Inr d1 \<Rightarrow> Inr (d1, now + seven_days))"

definition refresh_create :: "db \<Rightarrow> rotation \<Rightarrow> int \<Rightarrow> int \<Rightarrow> response \<times> db" where
  "refresh_create d rot expires now =
     (case refreshToken_create d (newRefreshToken rot) (user_id (owner rot)) expires of
        Inl e \<Rightarrow> (internal_error ''Failed to refresh token'' (error_message e) now, d)
      | Inr d1 \<Rightarrow>
          (success_response 200
             (auth_payload (owner rot) (newAccessToken rot) (newRefreshToken rot)) now, d1))"

text \<open>The handler run from its first line to its answer, at one clock reading.\<close>

definition refresh :: "env \<Rightarrow> db \<Rightarrow> string option \<Rightarrow> int \<Rightarrow> response \<times> db" where
  "refresh E d input now =
     (case refresh_verify E input now of
        Inl r \<Rightarrow> (r, d)
      | Inr presented \<Rightarrow>
          (case refresh_lookup E d presented now of
             Inl r \<Rightarrow> (r, d)
           | Inr rot \<Rightarrow>
               (case refresh_delete E d rot now of
                  Inl r \<Rightarrow> (r, d)
                | Inr (d1, expires) \<Rightarrow> refresh_create d1 rot expires now)))"

section \<open>Calls served one after the other\<close>

text \<open>
  The three handlers that write refresh-token records, and a sequence of calls to them,
  each call running to its answer, at its own clock reading, before the next starts.
\<close>

datatype api_call =
  Register register_body string
| Login login_body
| Refresh "string option"

fun handle :: "env \<Rightarrow> db \<Rightarrow> api_call \<Rightarrow> int \<Rightarrow> response \<times> db" where
  "handle E d (Register input salt) now = register E d input salt now"
| "handle E d (Login input) now = login E d input now"
| "handle E d (Refresh input) now = refresh E d input now"

fun serve_calls :: "env \<Rightarrow> db \<Rightarrow> (api_call \<times> int) list \<Rightarrow> db" where
  "serve_calls E d [] = d"
| "serve_calls E d ((call, now) # calls) = serve_calls E (snd (handle E d call now)) calls"

section \<open>Refresh calls in flight together\<close>

text \<open>
  Handlers of one process are interleaved at their \<open>await\<close>s, and each store operation
  is one step of the store. A refresh call is therefore in one of five states: waiting
  for its body (\<open>Pending\<close>), for its \<open>findUnique\<close> (\<open>Verified\<close>), for its \<open>delete\<close>
  (\<open>Found\<close>), for its \<open>create\<close> (\<open>Deleted\<close>, with the expiry it has computed for the new
  record), or over (\<open>Done\<close>). In a step, what the call was waiting for happens and the
  handler runs on to its next \<open>await\<close>, reading the clock as \<open>now\<close>. A schedule says which
  call takes its next step, and at which clock reading.
\<close>

datatype refresh_call =
  Pending "string option"
| Verified string
| Found rotation
| Deleted rotation int
| Done response

definition step :: "env \<Rightarrow> int \<Rightarrow> db \<Rightarrow> refresh_call \<Rightarrow> refresh_call \<times> db" where
  "step E now d call =
     (case call of
        Pending input \<Rightarrow>
          (case refresh_verify E input now of
             Inl r \<Rightarrow> (Done r, d)
           | Inr presented \<Rightarrow> (Verified presented, d))
      | Verified presented \<Rightarrow>
          (case refresh_lookup E d presented now of
             Inl r \<Rightarrow> (Done r, d)
           | Inr rot \<Rightarrow> (Found rot, d))
      | Found rot \<Rightarrow>
          (case refresh_delete E d rot now of
             Inl r \<Rightarrow> (Done r, d)
           | Inr (d1, expires) \<Rightarrow> (Deleted rot expires, d1))
      | Deleted rot expires \<Rightarrow>
          (let (r, d1) = refresh_create d rot expires now in (Done r, d1))
      | Done r \<Rightarrow> (Done r, d))"

fun run :: "env \<Rightarrow> db \<times> refresh_call list \<Rightarrow> (nat \<times> int) list \<Rightarrow> db \<times> refresh_call list" where
  "run E cfg [] = cfg"
| "run E (d, calls) ((i, now) # schedule) =
     (if i < length calls
      then (let (call1, d1) = step E now d (calls ! i)
            in run E (d1, calls[i := call1]) schedule)
      else run E (d, calls) schedule)"

text \<open>
  The status a call has answered with, if it has answered, and the three answers of
  calls that race for one token: the rotation, with the identity and the new pair of
  tokens in its body; the 401 of a lookup that found nothing; and the 500 of a \<open>delete\<close>
  that found nothing. Each carries the clock reading of its own last step.
\<close>

definition answered :: "refresh_call \<Rightarrow> nat option" where
  "answered call = (case call of Done r \<Rightarrow> Some (status r) | _ \<Rightarrow> None)"

definition rotated :: "User \<Rightarrow> string \<Rightarrow> string \<Rightarrow> refresh_call \<Rightarrow> bool" where
  "rotated u new_access new_refresh call =
     (case call of
        Done r \<Rightarrow>
          r = success_response 200 (auth_payload u new_access new_refresh) (timestamp (body r))
      | _ \<Rightarrow> False)"

definition rejected_at_lookup :: "refresh_call \<Rightarrow> bool" where
  "rejected_at_lookup call =
     (case call of
        Done r \<Rightarrow>
          r = error_response 401 ''Unauthorized'' ''Invalid or expired refresh token'' None
                (timestamp (body r))
      | _ \<Rightarrow> False)"

definition failed_at_delete :: "refresh_call \<Rightarrow> bool" where
  "failed_at_delete call =
     (case call of
        Done r \<Rightarrow>
          r = error_response 500 ''Internal Server Error'' ''Failed to refresh token''
                (Some (ErrorMessage ''Record to delete does not exist'')) (timestamp (body r))
      | _ \<Rightarrow> False)"

text \<open>
  What the proof about interleaved calls speaks of. All calls present the token \<open>T\<close>,
  stored as record \<open>r0\<close> of user \<open>u\<close> in the store \<open>d\<close> they start from.
  \<^item> \<open>rotation_setting\<close>: the store's \<open>delete\<close> raises on a missing record, the token is
    stored once and has its user, and the id of its record is not the next id the store
    hands out.
  \<^item> \<open>usable_at\<close>: at this clock reading the token verifies, its record has not expired,
    and the refresh token that would be minted is not in the store.
  \<^item> \<open>rotated_db\<close>: the store after a rotation: the old record deleted, the new one
    inserted.
  \<^item> The three phases of a rotation: before any \<open>delete\<close>, between the winner's \<open>delete\<close>
    and its \<open>create\<close>, and after the winner's answer.
  \<^item> \<open>found_record\<close>: the call's lookup has found the record; \<open>awaiting_lookup\<close>: the
    call's lookup has not run yet.
\<close>

definition fresh_rotation :: "RefreshToken \<Rightarrow> User \<Rightarrow> RefreshToken list \<Rightarrow> rotation \<Rightarrow> bool" where
  "fresh_rotation r0 u D0 rot =
     (storedToken rot = r0 \<and> owner rot = u
      \<and> find (\<lambda>r. token r = newRefreshToken rot) D0 = None)"

definition waiting :: "string \<Rightarrow> RefreshToken \<Rightarrow> User \<Rightarrow> RefreshToken list \<Rightarrow> refresh_call \<Rightarrow> bool" where
  "waiting T r0 u D0 c =
     (case c of
        Pending input \<Rightarrow> input = Some T
      | Verified presented \<Rightarrow> presented = T
      | Found rot \<Rightarrow> fresh_rotation r0 u D0 rot
      | Deleted rot expires \<Rightarrow> False
      | Done r \<Rightarrow> False)"

definition lost :: "refresh_call \<Rightarrow> bool" where
  "lost c = (rejected_at_lookup c \<or> failed_at_delete c)"

definition found_record :: "refresh_call \<Rightarrow> bool" where
  "found_record c =
     (case c of
        Pending input \<Rightarrow> False
      | Verified presented \<Rightarrow> False
      | Found rot \<Rightarrow> True
      | Deleted rot expires \<Rightarrow> True
      | Done r \<Rightarrow> status r = 200 \<or> status r = 500)"

definition awaiting_lookup :: "string \<Rightarrow> refresh_call \<Rightarrow> bool" where
  "awaiting_lookup T c = (c = Pending (Some T) \<or> c = Verified T)"

definition usable_at :: "env \<Rightarrow> db \<Rightarrow> string \<Rightarrow> RefreshToken \<Rightarrow> User \<Rightarrow> int \<Rightarrow> bool" where
  "usable_at E d T r0 u t =
     (verifyRefreshToken E T t \<noteq> None \<and> t \<le> expiresAt r0
      \<and> find (\<lambda>r. token r = generateRefreshToken E (token_payload u) t) (refreshTokens d) = None)"

definition deleted_db :: "db \<Rightarrow> RefreshToken \<Rightarrow> db" where
  "deleted_db d r0 = d\<lparr>refreshTokens := filter (\<lambda>r. token_id r \<noteq> token_id r0) (refreshTokens d)\<rparr>"

definition rotated_db :: "db \<Rightarrow> RefreshToken \<Rightarrow> string \<Rightarrow> string \<Rightarrow> int \<Rightarrow> db" where
  "rotated_db d r0 new_refresh uid expires =
     d\<lparr>refreshTokens := filter (\<lambda>r. token_id r \<noteq> token_id r0) (refreshTokens d)
          @ [\<lparr>token_id = new_id d, token = new_refresh, token_userId = uid,
              expiresAt = expires\<rparr>],
       next_id := Suc (next_id d)\<rparr>"

definition before_rotation :: "db \<Rightarrow> string \<Rightarrow> RefreshToken \<Rightarrow> User \<Rightarrow> db \<times> refresh_call list \<Rightarrow> bool" where
  "before_rotation d T r0 u cfg =
     (fst cfg = d \<and> (\<forall>j < length (snd cfg). waiting T r0 u (refreshTokens d) (snd cfg ! j)))"

definition during_rotation :: "db \<Rightarrow> string \<Rightarrow> RefreshToken \<Rightarrow> User \<Rightarrow> db \<times> refresh_call list \<Rightarrow> bool" where
  "during_rotation d T r0 u cfg =
     (fst cfg = deleted_db d r0
      \<and> (\<exists>k < length (snd cfg).
            (\<exists>rot expires. snd cfg ! k = Deleted rot expires
                \<and> fresh_rotation r0 u (refreshTokens d) rot)
            \<and> (\<forall>j < length (snd cfg). j \<noteq> k \<longrightarrow>
                  waiting T r0 u (refreshTokens d) (snd cfg ! j) \<or> lost (snd cfg ! j))))"

definition after_rotation :: "db \<Rightarrow> string \<Rightarrow> RefreshToken \<Rightarrow> User \<Rightarrow> db \<times> refresh_call list \<Rightarrow> bool" where
  "after_rotation d T r0 u cfg =
     (\<exists>k < length (snd cfg). \<exists>rot expires.
         fresh_rotation r0 u (refreshTokens d) rot
         \<and> rotated u (newAccessToken rot) (newRefreshToken rot) (snd cfg ! k)
         \<and> fst cfg = rotated_db d r0 (newRefreshToken rot) (user_id u) expires
         \<and> (\<forall>j < length (snd cfg). j \<noteq> k \<longrightarrow>
               waiting T r0 u (refreshTokens d) (snd cfg ! j) \<or> lost (snd cfg ! j)))"

definition rotation_setting :: "env \<Rightarrow> db \<Rightarrow> string \<Rightarrow> RefreshToken \<Rightarrow> User \<Rightarrow> bool" where
  "rotation_setting E d T r0 u =
     (prisma_delete_raises E \<and> T \<noteq> []
      \<and> find (\<lambda>r. token r = T) (refreshTokens d) = Some r0
      \<and> find (\<lambda>x. user_id x = token_userId r0) (users d) = Some u
      \<and> distinct (map token (refreshTokens d))
      \<and> token_id r0 \<noteq> new_id d)"

definition rotating :: "db \<Rightarrow> string \<Rightarrow> RefreshToken \<Rightarrow> User \<Rightarrow> db \<times> refresh_call list \<Rightarrow> bool" where
  "rotating d T r0 u cfg = (during_rotation d T r0 u cfg \<or> after_rotation d T r0 u cfg)"

definition rotation_invariant :: "db \<Rightarrow> string \<Rightarrow> RefreshToken \<Rightarrow> User \<Rightarrow> db \<times> refresh_call list \<Rightarrow> bool" where
  "rotation_invariant d T r0 u cfg = (before_rotation d T r0 u cfg \<or> rotating d T r0 u cfg)"

section \<open>Stand-ins for the libraries, to run examples\<close>

text \<open>
  The theorems below hold for every \<^typ>\<open>env\<close>. To evaluate the handlers on concrete
  requests an \<^typ>\<open>env\<close> is needed: this one signs a token by writing the secret, the
  payload, the issue time and the expiry time in clear, separated by bars, and verifies
  one by reading it back, checking the secret and the expiry as \<open>jwt.verify\<close> does
  (a token is expired once the clock has reached its expiry time).
\<close>

fun split_on :: "char \<Rightarrow> string \<Rightarrow> string list" where
  "split_on c [] = [[]]"
| "split_on c (x # xs) =
     (if x = c then [] # split_on c xs
      else (case split_on c xs of [] \<Rightarrow> [[x]] | y # ys \<Rightarrow> (x # y) # ys))"

definition expiry_seconds :: "string \<Rightarrow> int" where
  "expiry_seconds s =
     (case parseInt s of
        None \<Rightarrow> 0
      | Some n \<Rightarrow> n * (if endsWith s ''d'' then 86400 else if endsWith s ''h'' then 3600
                        else if endsWith s ''m'' then 60 else 1))"

definition example_sign :: "TokenPayload \<Rightarrow> string \<Rightarrow> string \<Rightarrow> int \<Rightarrow> string" where
  "example_sign p secret expiresIn clock =
     secret @ ''|'' @ userId p @ ''|'' @ payload_email p @ ''|'' @ payload_role p @ ''|''
       @ toString (Some clock) @ ''|'' @ toString (Some (clock + expiry_seconds expiresIn))"

definition example_verify :: "string \<Rightarrow> string \<Rightarrow> int \<Rightarrow> TokenPayload option" where
  "example_verify tok secret clock =
     (case split_on CHR ''|'' tok of
        [s, u, e, r, iat, ex] \<Rightarrow>
          (if s = secret \<and> (case parseInt ex of None \<Rightarrow> False | Some x \<Rightarrow> clock < x)
           then Some \<lparr>userId = u, payload_email = e, payload_role = r\<rparr> else None)
      | _ \<Rightarrow> None)"

definition example_env :: env where
  "example_env =
     \<lparr>JWT_ACCESS_SECRET = ''access-secret'', JWT_REFRESH_SECRET = ''refresh-secret'',
      JWT_ACCESS_EXPIRY = ''15m'', JWT_REFRESH_EXPIRY = ''7d'',
      jwt_sign = example_sign, jwt_verify = example_verify,
      bcrypt_hash = (\<lambda>password rounds salt. salt @ ''$'' @ password),
      bcrypt_compare = (\<lambda>password hash. endsWith hash (''$'' @ password)),
      prisma_delete_raises = True\<rparr>"

text \<open>A client that has used up the anonymous ceiling, and requests from that client.\<close>

definition exhausted_cache :: cache where
  "exhausted_cache = [rate_key anonymous ''203.0.113.9'' \<mapsto> counter_item 100 0]"

definition example_request :: "string \<Rightarrow> string option \<Rightarrow> request" where
  "example_request p auth =
     \<lparr>path = p, ip = Some ''203.0.113.9'',
      headers = (case auth of None \<Rightarrow> Map.empty | Some h \<Rightarrow> [''authorization'' \<mapsto> h])\<rparr>"

definition alice_payload :: TokenPayload where
  "alice_payload = \<lparr>userId = ''c1'', payload_email = ''alice@example.com'', payload_role = ''viewer''\<rparr>"

text \<open>An empty store, and the registration of the specification's scenario.\<close>

definition empty_db :: db where
  "empty_db = \<lparr>users = [], refreshTokens = [], next_id = 1\<rparr>"

definition alice_registration :: register_body where
  "alice_registration =
     \<lparr>reg_email = Some ''alice@example.com'', reg_password = Some ''Passw0rd!'',
      reg_name = Some ''Alice'', reg_role = None\<rparr>"

text \<open>
  The store after the registration of the scenario at time 0 with the stand-in
  libraries, and more generally a store with that one identity and one refresh record.
\<close>

definition alice_user :: User where
  "alice_user = \<lparr>user_id = ''c1'', user_email = ''alice@example.com'',
                  user_password = ''salt$Passw0rd!'', user_name = ''Alice'',
                  user_role = ''VIEWER''\<rparr>"

definition alice_token :: string where
  "alice_token = ''refresh-secret|c1|alice@example.com|viewer|0|604800''"

definition session_db :: "string \<Rightarrow> string \<Rightarrow> int \<Rightarrow> nat \<Rightarrow> db" where
  "session_db rid tok expires n =
     \<lparr>users = [alice_user],
      refreshTokens = [\<lparr>token_id = rid, token = tok, token_userId = ''c1'',
                        expiresAt = expires\<rparr>],
      next_id = n\<rparr>"

definition alice_db :: db where
  "alice_db = session_db ''c2'' alice_token 604800000 3"

definition admin_registration :: register_body where
  "admin_registration = alice_registration\<lparr>reg_role := Some ''admin''\<rparr>"

text \<open>The role a registration asks for, and the identity that \<open>register\<close> creates.\<close>

definition requested_role :: "register_body \<Rightarrow> string" where
  "requested_role input = (case reg_role input of None \<Rightarrow> ''viewer'' | Some r \<Rightarrow> r)"

definition new_user :: "env \<Rightarrow> db \<Rightarrow> string \<Rightarrow> string \<Rightarrow> string \<Rightarrow> string \<Rightarrow> string \<Rightarrow> User" where
  "new_user E d email password name role salt =
     \<lparr>user_id = new_id d, user_email = email, user_password = hashPassword E password salt,
      user_name = name, user_role = toUpperCase role\<rparr>"

text \<open>
  Two or three calls presenting the token of the scenario, with a store whose \<open>delete\<close>
  raises (\<open>example_env\<close>) and with one whose \<open>delete\<close> does not (\<open>lenient_env\<close>).
\<close>

definition lenient_env :: env where
  "lenient_env = example_env\<lparr>prisma_delete_raises := False\<rparr>"

definition alice_record :: RefreshToken where
  "alice_record = \<lparr>token_id = ''c2'', token = alice_token, token_userId = ''c1'',
                    expiresAt = 604800000\<rparr>"

definition alice_rotation :: rotation where
  "alice_rotation =
     \<lparr>storedToken = alice_record, owner = alice_user,
      newAccessToken = generateAccessToken example_env alice_payload 1000,
      newRefreshToken = generateRefreshToken example_env alice_payload 1000\<rparr>"

definition later_calls :: "(api_call \<times> int) list" where
  "later_calls =
     [(Login \<lparr>login_email = Some ''alice@example.com'', login_password = Some ''Passw0rd!''\<rparr>,
       1600),
      (Refresh (Some ''refresh-secret|c1|alice@example.com|viewer|1|604801''), 2700),
      (Register (alice_registration\<lparr>reg_email := Some ''bob@example.com''\<rparr>) ''salt'', 3000)]"

definition three_calls :: "(nat \<times> int) list" where
  "three_calls =
     [(0, 1000), (0, 1000), (1, 1000), (1, 1000), (0, 1001), (0, 1002), (1, 1003), (2, 1004),
      (2, 1004)]"

definition two_calls :: "(nat \<times> int) list" where
  "two_calls =
     [(0, 1000), (0, 1000), (1, 2000), (1, 2000), (0, 2001), (0, 2002), (1, 2003), (1, 2004)]"

section \<open>Permission checks\<close>

lemma editor_permissions:
  "permissions_table ''editor'' = Own [''content:*'', ''media:*'', ''comments:moderate'']"
  by (simp add: permissions_table_def)

lemma wildcard_is_prefix_match:
  "permission_matches permission ''content:*'' = startsWith permission ''content''"
  by (simp add: permission_matches_def endsWith_def slice_end_def)

text \<open>
  Claim C8. For role \<open>editor\<close> the check grants \<open>content:create\<close> and denies
  \<open>comments:moderateAll\<close>; the entry \<open>content:*\<close> is a plain prefix match on
  \<open>content\<close>, so every permission string that starts with \<open>content\<close>, such as
  \<open>contentx:read\<close>, is granted as well.
\<close>

theorem editor_permission_check:
  "hasPermission ''editor'' ''content:create'' = Inr True
   \<and> hasPermission ''editor'' ''comments:moderateAll'' = Inr False
   \<and> hasPermission ''editor'' ''contentx:read'' = Inr True
   \<and> (\<forall>rest. hasPermission ''editor'' (''content'' @ rest) = Inr True)
   \<and> getPermissions ''editor'' = Own [''content:*'', ''media:*'', ''comments:moderate'']"
proof -
  have grant: "hasPermission ''editor'' (''content'' @ rest) = Inr True" for rest
    by (simp add: hasPermission_def editor_permissions wildcard_is_prefix_match
        startsWith_def)
  have deny: "hasPermission ''editor'' ''comments:moderateAll'' = Inr False"
    by (simp add: hasPermission_def editor_permissions permission_matches_def
        endsWith_def slice_end_def startsWith_def)
  have tbl: "getPermissions ''editor'' = Own [''content:*'', ''media:*'', ''comments:moderate'']"
    by (simp add: getPermissions_def toLowerCase_def lower_char_def is_upper_def
        editor_permissions)
  from grant [of "'':create''"] grant [of "''x:read''"] grant deny tbl show ?thesis
    by simp
qed

section \<open>Decimal strings round-trip\<close>

declare nat_toString.simps [simp del]

lemma digit_char_props:
  assumes "d < 10"
  shows "is_digit (digit_char d)" "digit_val (digit_char d) = d"
proof -
  have d: "d \<in> {0,1,2,3,4,5,6,7,8,9}" using assms by auto
  show "is_digit (digit_char d)" using d by (auto simp: is_digit_def digit_char_def)
  show "digit_val (digit_char d) = d" using d by (auto simp: digit_val_def digit_char_def)
qed

lemma nat_toString_digits: "list_all is_digit (nat_toString n)"
proof (induction n rule: nat_toString.induct)
  case (1 n)
  show ?case
  proof (cases "n < 10")
    case True
    then show ?thesis by (subst nat_toString.simps) (simp add: digit_char_props)
  next
    case False
    with 1 show ?thesis by (subst nat_toString.simps) (simp add: digit_char_props)
  qed
qed

lemma nat_toString_nonempty: "nat_toString n \<noteq> []"
  by (subst nat_toString.simps) simp

lemma digits_value_snoc: "digits_value (ds @ [c]) = digits_value ds * 10 + digit_val c"
  by (simp add: digits_value_def)

lemma digits_value_nat_toString: "digits_value (nat_toString n) = n"
proof (induction n rule: nat_toString.induct)
  case (1 n)
  show ?case
  proof (cases "n < 10")
    case True
    then show ?thesis
      by (subst nat_toString.simps) (simp add: digits_value_def digit_char_props)
  next
    case False
    with 1 show ?thesis
      by (subst nat_toString.simps) (simp add: digits_value_snoc digit_char_props)
  qed
qed

lemma parseInt_nat_toString: "parseInt (nat_toString n) = Some (int n)"
proof -
  obtain c cs where cs: "nat_toString n = c # cs"
    using nat_toString_nonempty [of n] by (cases "nat_toString n") auto
  have all: "list_all is_digit (c # cs)" using nat_toString_digits [of n] cs by simp
  then have c: "is_digit c" by simp
  have ns: "\<not> is_space c" "c \<noteq> CHR ''-''" "c \<noteq> CHR ''+''"
    using c by (auto simp: is_digit_def is_space_def)
  have tw: "takeWhile is_digit (c # cs) = c # cs"
    using all by (simp add: list_all_iff)
  show ?thesis
    using ns tw digits_value_nat_toString [of n]
    by (simp add: parseInt_def cs Let_def)
qed

lemma parseInt_toString: "0 \<le> i \<Longrightarrow> parseInt (toString (Some i)) = Some i"
  by (simp add: toString_def parseInt_nat_toString)

lemma toString_nonempty: "toString (Some (int k)) \<noteq> []"
  by (simp add: toString_def nat_toString_nonempty)

section \<open>The rate limiter, request by request\<close>

text \<open>The first request of a window: the key is absent, or its entry has expired.\<close>

lemma checkLimit_fresh:
  assumes "fst (cache_get c (rate_key type identifier) now) = None"
  shows "checkLimit c identifier type now =
           (expected_result type 1 now,
            c(rate_key type identifier \<mapsto> counter_item 1 now))"
proof -
  let ?key = "rate_key type identifier"
  obtain c1 where g: "cache_get c ?key now = (None, c1)"
    using assms by (cases "cache_get c ?key now") auto
  have one: "toString (Some 1) = ''1''"
    by (simp add: toString_def nat_toString.simps digit_char_def char_of_eq_iff)
  have p0: "parseInt ''0'' = Some 0"
    by (simp add: parseInt_def is_space_def is_digit_def digits_value_def digit_val_def)
  have p1: "parseInt ''1'' = Some 1"
    by (simp add: parseInt_def is_space_def is_digit_def digits_value_def digit_val_def)
  have c1: "c1(?key \<mapsto> v) = c(?key \<mapsto> v)" for v
    using g by (auto simp: cache_get_def split: option.splits if_splits)
  have incr: "cache_incr c ?key now =
      (Some 1, c(?key \<mapsto> \<lparr>item_value = ''1'', item_expiry = now + 3600 * 1000\<rparr>))"
    by (simp add: cache_incr_def g p0 p1 js_add_def one cache_set_def c1)
  show ?thesis
    by (simp add: checkLimit_def incr cache_expire_def expected_result_def counter_item_def
        window_def one Let_def)
qed

text \<open>
  A later request, arriving before the entry expires: the counter goes up by one, and
  the entry's expiry is set again, to 3600 s after this request.
\<close>

lemma checkLimit_live:
  assumes "c (rate_key type identifier) = Some (counter_item k t)"
    and "now \<le> t + window * 1000" and "0 < k"
  shows "checkLimit c identifier type now =
           (expected_result type (Suc k) now,
            c(rate_key type identifier \<mapsto> counter_item (Suc k) now))"
proof -
  let ?key = "rate_key type identifier"
  have g: "cache_get c ?key now = (Some (toString (Some (int k))), c)"
    using assms by (simp add: cache_get_def counter_item_def)
  have p: "parseInt (toString (Some (int k))) = Some (int k)"
    by (rule parseInt_toString) simp
  have p': "parseInt (toString (Some (int k + 1))) = Some (int k + 1)"
    by (rule parseInt_toString) simp
  have incr: "cache_incr c ?key now =
      (Some (int k + 1),
       c(?key \<mapsto> \<lparr>item_value = toString (Some (int k + 1)), item_expiry = now + 3600 * 1000\<rparr>))"
    by (simp add: cache_incr_def g p p' js_add_def cache_set_def toString_nonempty)
  show ?thesis
    using assms(3)
    by (simp add: checkLimit_def incr expected_result_def counter_item_def window_def
        Let_def add.commute)
qed

lemma checkLimits_live:
  assumes "c (rate_key type identifier) = Some (counter_item k t)" and "within_expiry t ts"
    and "0 < k"
  shows "fst (checkLimits c identifier type ts) = expected_results type (Suc k) ts"
  using assms
proof (induction ts arbitrary: c k t)
  case Nil
  then show ?case by simp
next
  case (Cons u us)
  let ?c1 = "c(rate_key type identifier \<mapsto> counter_item (Suc k) u)"
  have step: "checkLimit c identifier type u = (expected_result type (Suc k) u, ?c1)"
    using Cons.prems by (intro checkLimit_live) auto
  have ih: "fst (checkLimits ?c1 identifier type us) = expected_results type (Suc (Suc k)) us"
    using Cons.prems by (intro Cons.IH [where t = u]) auto
  show ?case
    using ih by (simp add: step case_prod_beta)
qed

lemma checkLimits_fresh:
  assumes "fst (cache_get c (rate_key type identifier) t) = None" and "within_expiry t ts"
  shows "fst (checkLimits c identifier type (t # ts)) = expected_results type 1 (t # ts)"
proof -
  let ?c1 = "c(rate_key type identifier \<mapsto> counter_item 1 t)"
  have step: "checkLimit c identifier type t = (expected_result type 1 t, ?c1)"
    using assms(1) by (rule checkLimit_fresh)
  have rest: "fst (checkLimits ?c1 identifier type ts) = expected_results type (Suc 1) ts"
    using assms(2) by (intro checkLimits_live [where t = t]) auto
  show ?thesis
    using rest by (simp add: step case_prod_beta)
qed

lemma length_checkLimits: "length (fst (checkLimits c identifier type ts)) = length ts"
  by (induction ts arbitrary: c) (simp_all add: case_prod_beta)

lemma expected_results_nth:
  "k < length ts \<Longrightarrow> expected_results type n ts ! k = expected_result type (n + k) (ts ! k)"
proof (induction ts arbitrary: n k)
  case Nil
  then show ?case by simp
next
  case (Cons t ts)
  then show ?case by (cases k) auto
qed

lemma sorted_within_expiry:
  assumes "sorted (t # us)" and "\<forall>u \<in> set us. u \<le> t0 + window * 1000" and "t0 \<le> t"
  shows "within_expiry t us"
  using assms
proof (induction us arbitrary: t)
  case Nil
  then show ?case by simp
next
  case (Cons u us)
  have "within_expiry u us"
    using Cons.prems by (intro Cons.IH) auto
  moreover have "u \<le> t + window * 1000"
    using Cons.prems by (auto simp: window_def)
  ultimately show ?case by simp
qed

lemma sorted_le_last: "sorted xs \<Longrightarrow> x \<in> set xs \<Longrightarrow> x \<le> last xs"
  by (induction xs) (auto split: if_splits)

lemma single_window_within:
  assumes "single_window (t # us)"
  shows "within_expiry t us"
proof -
  from assms have s: "sorted (t # us)" and l: "last (t # us) \<le> t + window * 1000"
    by (simp_all add: single_window_def)
  have "u \<le> t + window * 1000" if "u \<in> set us" for u
  proof -
    have "u \<le> last (t # us)"
      using s that by (intro sorted_le_last) auto
    with l show ?thesis by simp
  qed
  with s show ?thesis by (intro sorted_within_expiry [where ?t0.0 = t]) auto
qed

text \<open>
  Claim C6. For every bucket type, identifier and cache: when the first of a sequence of
  requests opens a window (the key is absent or expired) and the requests stay in one
  window, the k-th request is allowed exactly when k is at most the ceiling, and the
  remaining count it returns is max(0, ceiling - k). So the request number ceiling is
  allowed and the request number ceiling + 1 is the first one rejected.
\<close>

theorem ceiling_within_window:
  assumes "fst (cache_get c (rate_key type identifier) (hd ts)) = None"
    and "single_window ts" and "k < length ts"
  shows "allowed (fst (checkLimits c identifier type ts) ! k) = (int (Suc k) \<le> limits type)
       \<and> remaining (fst (checkLimits c identifier type ts) ! k)
           = Some (max 0 (limits type - int (Suc k)))"
proof -
  obtain t us where ts: "ts = t # us" using assms(3) by (cases ts) auto
  have "fst (checkLimits c identifier type ts) = expected_results type 1 ts"
    unfolding ts using assms(1,2) unfolding ts
    by (intro checkLimits_fresh single_window_within) auto
  then have "fst (checkLimits c identifier type ts) ! k = expected_result type (Suc k) (ts ! k)"
    using assms(3) by (simp add: expected_results_nth)
  then show ?thesis
    by (simp add: expected_result_def)
qed

text \<open>
  The anonymous bucket at its ceiling of 100: of 101 requests one millisecond apart,
  the first 100 are allowed and the last is rejected with nothing remaining.
\<close>

theorem ceiling_within_window_witness:
  "map allowed (fst (checkLimits Map.empty ''203.0.113.9'' anonymous (map int [0..<101])))
     = replicate 100 True @ [False]
   \<and> remaining (fst (checkLimits Map.empty ''203.0.113.9'' anonymous (map int [0..<101])) ! 100)
     = Some 0"
proof -
  let ?ts = "map int [0..<101]"
  let ?rs = "fst (checkLimits Map.empty ''203.0.113.9'' anonymous ?ts)"
  have fresh: "fst (cache_get Map.empty (rate_key anonymous ''203.0.113.9'') (hd ?ts)) = None"
    by (simp add: cache_get_def)
  have win: "single_window ?ts"
    by code_simp
  have len: "length ?rs = 101"
    by (simp add: length_checkLimits)
  have nth: "allowed (?rs ! k) = (k < 100) \<and> remaining (?rs ! k) = Some (max 0 (100 - int (Suc k)))"
    if "k < 101" for k
    using ceiling_within_window [OF fresh win, of k] that by auto
  have "map allowed ?rs = replicate 100 True @ [False]"
  proof (rule nth_equalityI)
    show "length (map allowed ?rs) = length (replicate 100 True @ [False])"
      using len by simp
  next
    fix i assume "i < length (map allowed ?rs)"
    then have i: "i < 101" using len by simp
    then show "map allowed ?rs ! i = (replicate 100 True @ [False]) ! i"
      using nth [OF i] len by (auto simp: nth_append)
  qed
  moreover have "remaining (?rs ! 100) = Some 0"
    using nth [of 100] by simp
  ultimately show ?thesis by simp
qed

section \<open>The window's expiry\<close>

text \<open>
  Claim C5. Three requests of one client at 0 ms, 1000 ms and 3600001 ms. The first sets
  the entry's expiry to 3600000. The second moves it to 3601000, because
  \<open>SimpleCache.incr\<close> stores the new count through \<open>set\<close>, whose default expiry is one hour
  from now. The third arrives after the first window's expiry and is counted as request
  number 3 of the same window (97 remaining), not as request number 1 of a new one.
\<close>

theorem later_request_moves_expiry:
  "map_option item_expiry
     (snd (checkLimits Map.empty ''203.0.113.9'' anonymous [0]) (rate_key anonymous ''203.0.113.9''))
     = Some 3600000
   \<and> map_option item_expiry
     (snd (checkLimits Map.empty ''203.0.113.9'' anonymous [0, 1000]) (rate_key anonymous ''203.0.113.9''))
     = Some 3601000
   \<and> map remaining (fst (checkLimits Map.empty ''203.0.113.9'' anonymous [0, 1000, 3600001]))
     = [Some 99, Some 98, Some 97]"
proof -
  let ?key = "rate_key anonymous ''203.0.113.9''"
  let ?c1 = "Map.empty(?key \<mapsto> counter_item 1 0)"
  let ?c2 = "?c1(?key \<mapsto> counter_item 2 1000)"
  let ?c3 = "?c2(?key \<mapsto> counter_item 3 3600001)"
  have s1: "checkLimit Map.empty ''203.0.113.9'' anonymous 0 = (expected_result anonymous 1 0, ?c1)"
    by (intro checkLimit_fresh) (simp add: cache_get_def)
  have s2: "checkLimit ?c1 ''203.0.113.9'' anonymous 1000 = (expected_result anonymous 2 1000, ?c2)"
    using checkLimit_live [of ?c1 anonymous "''203.0.113.9''" 1 0 1000]
    by (simp add: window_def numeral_2_eq_2)
  have s3: "checkLimit ?c2 ''203.0.113.9'' anonymous 3600001
              = (expected_result anonymous 3 3600001, ?c3)"
    using checkLimit_live [of ?c2 anonymous "''203.0.113.9''" 2 1000 3600001]
    by (simp add: window_def numeral_3_eq_3 numeral_2_eq_2)
  have r1: "checkLimits Map.empty ''203.0.113.9'' anonymous [0] = ([expected_result anonymous 1 0], ?c1)"
    by (simp only: checkLimits.simps s1 Let_def prod.case)
  have r2: "checkLimits Map.empty ''203.0.113.9'' anonymous [0, 1000]
              = ([expected_result anonymous 1 0, expected_result anonymous 2 1000], ?c2)"
    by (simp only: checkLimits.simps s1 s2 Let_def prod.case)
  have r3: "fst (checkLimits Map.empty ''203.0.113.9'' anonymous [0, 1000, 3600001])
              = [expected_result anonymous 1 0, expected_result anonymous 2 1000,
                 expected_result anonymous 3 3600001]"
    by (simp only: checkLimits.simps s1 s2 s3 Let_def prod.case fst_conv)
  show ?thesis
    unfolding r1 r2 r3 by (simp add: counter_item_def expected_result_def window_def)
qed

section \<open>The middleware: rate limiting and authentication\<close>

lemma exhausted_checkLimit:
  "checkLimit exhausted_cache ''203.0.113.9'' anonymous 1
     = (\<lparr>allowed = False, remaining = Some 0, resetAt = 3600001\<rparr>,
        exhausted_cache(rate_key anonymous ''203.0.113.9'' \<mapsto> counter_item 101 1))"
  using checkLimit_live [of exhausted_cache anonymous "''203.0.113.9''" 100 0 1]
  by (simp add: exhausted_cache_def expected_result_def window_def)

lemma example_request_simps:
  "path (example_request p auth) = p"
  "rate_identifier (example_request p auth) = ''203.0.113.9''"
  "rateLimitType (example_request p None) = anonymous"
  "headers (example_request p None) ''authorization'' = None"
  "headers (example_request p (Some h)) ''authorization'' = Some h"
  by (simp_all add: example_request_def rate_identifier_def rateLimitType_def)

lemma api_path_matched: "config_matcher (''/api'' @ rest) = list_all regex_dot rest"
  by (simp add: config_matcher_def startsWith_def favicon_ico_def regex_dot_def)

lemma example_paths:
  "\<not> exempt ''/api/content''" "protected_route ''/api/content''"
  "exempt ''/api/auth/login''" "exempt ''/api/auth/refresh''" "exempt ''/favicon.ico''"
  "config_matcher ''/api/auth/login''" "\<not> is_public_route ''/favicon.ico''"
  by (simp_all add: exempt_def protected_route_def config_matcher_def is_public_route_def
      startsWith_def favicon_ico_def regex_dot_def)

lemma invoke_exempt: "exempt (path req) \<Longrightarrow> invoke_middleware E c req now = (Next None, c)"
  by (auto simp: invoke_middleware_def middleware_def exempt_def)

lemma invoke_gate:
  assumes "\<not> exempt (path req)"
  shows "invoke_middleware E c req now
           = (gate E req now (fst (checkLimit c (rate_identifier req) (rateLimitType req) now)),
              snd (checkLimit c (rate_identifier req) (rateLimitType req) now))"
  using assms
  by (simp add: invoke_middleware_def middleware_def exempt_def gate_def case_prod_beta)

text \<open>
  A run of requests of one client in one bucket, none of them exempt: the middleware's
  answers are the rate limiter's verdicts on the same clock readings, put through
  \<open>gate\<close>.
\<close>

lemma serve_requests_nth:
  assumes "list_all (\<lambda>(req, t). \<not> exempt (path req) \<and> rate_identifier req = identifier
                        \<and> rateLimitType req = type) reqs"
    and "k < length reqs"
  shows "fst (serve_requests E c reqs) ! k
           = gate E (fst (reqs ! k)) (snd (reqs ! k))
               (fst (checkLimits c identifier type (map snd reqs)) ! k)"
  using assms
proof (induction reqs arbitrary: c k)
  case Nil
  then show ?case by simp
next
  case (Cons x reqs)
  obtain req t where x: "x = (req, t)" by (cases x)
  from Cons.prems(1) have ne: "\<not> exempt (path req)" and id: "rate_identifier req = identifier"
    and ty: "rateLimitType req = type"
    and rest: "list_all (\<lambda>(req, t). \<not> exempt (path req) \<and> rate_identifier req = identifier
                        \<and> rateLimitType req = type) reqs"
    by (simp_all add: x)
  show ?case
  proof (cases k)
    case 0
    then show ?thesis
      by (simp add: x invoke_gate [OF ne] id ty case_prod_beta)
  next
    case (Suc k')
    with Cons.prems(2) have k': "k' < length reqs" by simp
    from Cons.IH [OF rest k'] show ?thesis
      by (simp add: x Suc invoke_gate [OF ne] id ty case_prod_beta)
  qed
qed

text \<open>
  Claim C7, as stated, fails: a client that has used up its ceiling requests
  \<open>/api/auth/login\<close>. The framework hands the request to the middleware and the rate
  limiter would reject it, but the middleware returns \<open>NextResponse.next()\<close> for the
  public routes before it reaches the rate limiter, and the counter is not touched.
\<close>

theorem login_route_skips_rate_limiter:
  "config_matcher ''/api/auth/login''
   \<and> \<not> allowed (fst (checkLimit exhausted_cache ''203.0.113.9'' anonymous 1))
   \<and> invoke_middleware example_env exhausted_cache (example_request ''/api/auth/login'' None) 1
       = (Next None, exhausted_cache)"
  by (simp add: exhausted_checkLimit example_paths invoke_exempt example_request_simps)

text \<open>
  Claim C7, amended. A request is exempt when \<open>config.matcher\<close> does not match its path
  (the part after the first slash begins with \<open>_next/static\<close>, \<open>_next/image\<close> or
  \<open>favicon.ico\<close>) or when its path is a public route (it begins with \<open>/_next\<close> or
  \<open>/static\<close>, or is the login, register or refresh endpoint): an exempt request is
  forwarded without consulting the rate limiter, whatever the limiter would have said,
  and its counter is left alone. Every other request consumes from the rate limiter
  before anything else: the cache it leaves is the one \<open>checkLimit\<close> leaves, a rejected
  request is answered 429 whatever its token, and only an admitted one has its token
  verified (under \<open>/api\<close>) or is forwarded. So of a run of such requests from one
  client in one bucket, opening a window and staying in it, exactly the first
  \<open>ceiling\<close> ones reach token verification or the handler, whether or not they
  authenticate, and every later one is answered 429.
\<close>

theorem rate_limiter_precedes_authentication:
  assumes "list_all (\<lambda>(req, t). \<not> exempt (path req) \<and> rate_identifier req = identifier
                        \<and> rateLimitType req = type) reqs"
    and "fst (cache_get c (rate_key type identifier) (snd (hd reqs))) = None"
    and "single_window (map snd reqs)"
    and "k < length reqs" and "reqs ! k = (req, now)"
  shows "fst (serve_requests E c reqs) ! k
           = (if int (Suc k) \<le> limits type
              then (if startsWith (path req) ''/api'' then authenticate E req now else Next None)
              else Json (error_response 429 ''Too Many Requests'' ''Rate limit exceeded''
                           (Some (RateLimitDetails (Some 0) (now + 3600000))) now))
       \<and> (\<forall>c1 r1 t1. \<not> exempt (path r1) \<longrightarrow>
             snd (invoke_middleware E c1 r1 t1)
               = snd (checkLimit c1 (rate_identifier r1) (rateLimitType r1) t1)
             \<and> fst (invoke_middleware E c1 r1 t1)
               = (let rateLimit = fst (checkLimit c1 (rate_identifier r1) (rateLimitType r1) t1)
                  in if \<not> allowed rateLimit then Json (too_many_requests rateLimit t1)
                     else if startsWith (path r1) ''/api'' then authenticate E r1 t1
                     else Next None))
       \<and> (\<forall>c1 r1 t1. exempt (path r1) \<longrightarrow> invoke_middleware E c1 r1 t1 = (Next None, c1))"
proof -
  obtain t ts where ts: "map snd reqs = t # ts"
    using assms(4) by (cases reqs) auto
  have hd: "snd (hd reqs) = t"
    using ts by (cases reqs) auto
  have "fst (checkLimits c identifier type (map snd reqs)) = expected_results type 1 (map snd reqs)"
    unfolding ts using assms(2,3) unfolding ts hd
    by (intro checkLimits_fresh single_window_within) auto
  then have verdict: "fst (checkLimits c identifier type (map snd reqs)) ! k
                        = expected_result type (Suc k) now"
    using assms(4,5) by (simp add: expected_results_nth)
  have run: "fst (serve_requests E c reqs) ! k
      = gate E req now (fst (checkLimits c identifier type (map snd reqs)) ! k)"
    using serve_requests_nth [OF assms(1,4), of E c] assms(5) by simp
  have seq: "fst (serve_requests E c reqs) ! k
           = (if int (Suc k) \<le> limits type
              then (if startsWith (path req) ''/api'' then authenticate E req now else Next None)
              else Json (error_response 429 ''Too Many Requests'' ''Rate limit exceeded''
                           (Some (RateLimitDetails (Some 0) (now + 3600000))) now))"
    unfolding run verdict
    by (simp add: gate_def expected_result_def too_many_requests_def window_def)
  have one: "snd (invoke_middleware E c1 r1 t1)
               = snd (checkLimit c1 (rate_identifier r1) (rateLimitType r1) t1)
             \<and> fst (invoke_middleware E c1 r1 t1)
               = (let rateLimit = fst (checkLimit c1 (rate_identifier r1) (rateLimitType r1) t1)
                  in if \<not> allowed rateLimit then Json (too_many_requests rateLimit t1)
                     else if startsWith (path r1) ''/api'' then authenticate E r1 t1
                     else Next None)"
    if "\<not> exempt (path r1)" for c1 r1 t1
    using invoke_gate [OF that, of E c1 t1] by (simp add: gate_def Let_def)
  from seq one invoke_exempt show ?thesis
    by blast
qed

lemma window_101: "single_window (map int [0..<101])"
  by code_simp

theorem rate_limiter_precedes_authentication_witness:
  "fst (serve_requests example_env Map.empty
          (map (\<lambda>t. (example_request ''/api/content'' None, int t)) [0..<101])) ! 99
     = Json (no_token_response 99)
   \<and> fst (serve_requests example_env Map.empty
          (map (\<lambda>t. (example_request ''/api/content'' None, int t)) [0..<101])) ! 100
     = Json (error_response 429 ''Too Many Requests'' ''Rate limit exceeded''
               (Some (RateLimitDetails (Some 0) 3600100)) 100)
   \<and> invoke_middleware example_env exhausted_cache (example_request ''/api/auth/refresh'' None) 1
     = (Next None, exhausted_cache)
   \<and> invoke_middleware example_env exhausted_cache (example_request ''/favicon.ico'' None) 1
     = (Next None, exhausted_cache)
   \<and> invoke_middleware example_env exhausted_cache (example_request ''/api/content'' None) 1
     = (Json (too_many_requests \<lparr>allowed = False, remaining = Some 0, resetAt = 3600001\<rparr> 1),
        exhausted_cache(rate_key anonymous ''203.0.113.9'' \<mapsto> counter_item 101 1))"
proof -
  let ?req = "example_request ''/api/content'' None"
  let ?reqs = "map (\<lambda>t. (?req, int t)) [0..<101]"
  have all: "list_all (\<lambda>(req, t). \<not> exempt (path req) \<and> rate_identifier req = ''203.0.113.9''
                        \<and> rateLimitType req = anonymous) ?reqs"
    by (simp add: list_all_iff example_request_simps example_paths)
  have times: "map snd ?reqs = map int [0..<101]"
    by (simp add: comp_def)
  have fresh: "fst (cache_get Map.empty (rate_key anonymous ''203.0.113.9'') (snd (hd ?reqs))) = None"
    by (simp add: cache_get_def)
  have win: "single_window (map snd ?reqs)"
    unfolding times by (rule window_101)
  have auth: "authenticate example_env ?req t = Json (no_token_response t)" for t
    by (simp add: authenticate_def extractToken_def example_request_simps)
  have a: "fst (serve_requests example_env Map.empty ?reqs) ! 99 = Json (no_token_response 99)"
    using rate_limiter_precedes_authentication
            [OF all fresh win, of 99 ?req 99 example_env]
    by (simp add: example_request_simps startsWith_def auth)
  have b: "fst (serve_requests example_env Map.empty ?reqs) ! 100
     = Json (error_response 429 ''Too Many Requests'' ''Rate limit exceeded''
               (Some (RateLimitDetails (Some 0) 3600100)) 100)"
    using rate_limiter_precedes_authentication
            [OF all fresh win, of 100 ?req 100 example_env]
    by simp
  have ex: "exempt (path (example_request ''/api/auth/refresh'' None))"
    "exempt (path (example_request ''/favicon.ico'' None))"
    by (simp_all add: example_request_simps example_paths)
  have ne: "\<not> exempt (path ?req)"
    by (simp add: example_request_simps example_paths)
  from rate_limiter_precedes_authentication [OF all fresh win, of 100 ?req 100 example_env]
  have c: "invoke_middleware example_env exhausted_cache (example_request ''/api/auth/refresh'' None) 1
             = (Next None, exhausted_cache)"
    and d: "invoke_middleware example_env exhausted_cache (example_request ''/favicon.ico'' None) 1
             = (Next None, exhausted_cache)"
    and e: "snd (invoke_middleware example_env exhausted_cache ?req 1)
               = snd (checkLimit exhausted_cache (rate_identifier ?req) (rateLimitType ?req) 1)
             \<and> fst (invoke_middleware example_env exhausted_cache ?req 1)
               = (let rateLimit = fst (checkLimit exhausted_cache (rate_identifier ?req)
                                         (rateLimitType ?req) 1)
                  in if \<not> allowed rateLimit then Json (too_many_requests rateLimit 1)
                     else if startsWith (path ?req) ''/api'' then authenticate example_env ?req 1
                     else Next None)"
    using ex ne by simp_all
  from e have e': "invoke_middleware example_env exhausted_cache ?req 1
     = (Json (too_many_requests \<lparr>allowed = False, remaining = Some 0, resetAt = 3600001\<rparr> 1),
        exhausted_cache(rate_key anonymous ''203.0.113.9'' \<mapsto> counter_item 101 1))"
    by (simp add: example_request_simps exhausted_checkLimit prod_eq_iff)
  from a b c d e' show ?thesis
    by simp
qed

lemma headers_set_ok:
  "header_value_ok v \<Longrightarrow> headers_set hs name v = Inr (hs(name \<mapsto> normalize_value v))"
  "\<not> header_value_ok v \<Longrightarrow> headers_set hs name v = Inl TypeError"
  by (simp_all add: headers_set_def)







section \<open>Registration: validation\<close>

text \<open>
  Matching by derivatives decides membership in the language, and the email pattern
  accepts exactly the strings \<open>a@b.c\<close> with \<open>a\<close>, \<open>b\<close> and \<open>c\<close> non-empty and free of
  white space and of \<open>@\<close>.
\<close>

lemma nullable_lang: "nullable r = ([] \<in> lang r)"
  by (induction r) (auto intro: star_empty)

lemma star_cons:
  "(c # w \<in> star A) = (\<exists>u v. w = u @ v \<and> c # u \<in> A \<and> v \<in> star A)"
proof
  assume "c # w \<in> star A"
  then show "\<exists>u v. w = u @ v \<and> c # u \<in> A \<and> v \<in> star A"
  proof (induction "c # w" arbitrary: w rule: star.induct)
    case (star_more u v)
    show ?case
    proof (cases u)
      case Nil
      with star_more show ?thesis by simp
    next
      case (Cons a u')
      with star_more.hyps(1,2,4) show ?thesis by auto
    qed
  qed
next
  assume "\<exists>u v. w = u @ v \<and> c # u \<in> A \<and> v \<in> star A"
  then obtain u v where "w = u @ v" "c # u \<in> A" "v \<in> star A" by blast
  then show "c # w \<in> star A"
    using star_more [of "c # u" A v] by simp
qed

lemma lang_deriv: "lang (deriv c r) = {w. c # w \<in> lang r}"
proof (induction r)
  case (Seq r s)
  show ?case
  proof (rule set_eqI)
    fix w
    have "(c # w \<in> lang (Seq r s))
          = ((\<exists>u v. w = u @ v \<and> c # u \<in> lang r \<and> v \<in> lang s) \<or> ([] \<in> lang r \<and> c # w \<in> lang s))"
      by (auto simp: Cons_eq_append_conv) 
    then show "(w \<in> lang (deriv c (Seq r s))) = (w \<in> {w. c # w \<in> lang (Seq r s)})"
      using Seq by (auto simp: nullable_lang)
  qed
next
  case (Star r)
  then show ?case by (auto simp: star_cons)
qed auto

lemma regex_matches_lang: "regex_matches r s = (s \<in> lang r)"
  by (induction s arbitrary: r) (simp_all add: nullable_lang lang_deriv)

lemma star_atom: "(w \<in> star {[c] | c. P c}) = list_all P w"
proof
  assume "w \<in> star {[c] | c. P c}"
  then show "list_all P w" by (induction rule: star.induct) auto
next
  assume "list_all P w"
  then show "w \<in> star {[c] | c. P c}"
  proof (induction w)
    case Nil
    show ?case by (rule star_empty)
  next
    case (Cons a w)
    then have "[a] \<in> {[c] | c. P c}" and "w \<in> star {[c] | c. P c}" by auto
    from star_more [OF this] show ?case by simp
  qed
qed

lemma lang_SeqI: "u \<in> lang r \<Longrightarrow> v \<in> lang s \<Longrightarrow> u @ v \<in> lang (Seq r s)"
  by auto

lemma lang_Plus_Atom: "(w \<in> lang (Plus (Atom P))) = (w \<noteq> [] \<and> list_all P w)"
proof (cases w)
  case Nil
  then show ?thesis by (simp add: Plus_def)
next
  case (Cons a w')
  have "(a # w' \<in> lang (Plus (Atom P))) = (P a \<and> w' \<in> star {[c] | c. P c})"
  proof
    assume "a # w' \<in> lang (Plus (Atom P))"
    then show "P a \<and> w' \<in> star {[c] | c. P c}"
      by (auto simp: Plus_def)
  next
    assume "P a \<and> w' \<in> star {[c] | c. P c}"
    then have "[a] \<in> lang (Atom P)" and "w' \<in> lang (Star (Atom P))" by auto
    from lang_SeqI [OF this] show "a # w' \<in> lang (Plus (Atom P))"
      by (simp add: Plus_def)
  qed
  then show ?thesis
    by (simp add: Cons star_atom)
qed

lemma lang_Seq: "(w \<in> lang (Seq r s)) = (\<exists>u v. w = u @ v \<and> u \<in> lang r \<and> v \<in> lang s)"
  by auto

lemma lang_char: "(w \<in> lang (Atom (\<lambda>c. c = x))) = (w = [x])"
  by auto

lemma email_format:
  "regex_matches emailRegex s
     = (\<exists>a b c. s = a @ ''@'' @ b @ ''.'' @ c \<and> a \<noteq> [] \<and> b \<noteq> [] \<and> c \<noteq> []
          \<and> list_all not_space_or_at a \<and> list_all not_space_or_at b
          \<and> list_all not_space_or_at c)"
proof
  assume "regex_matches emailRegex s"
  then have "s \<in> lang emailRegex" by (simp add: regex_matches_lang)
  then show "\<exists>a b c. s = a @ ''@'' @ b @ ''.'' @ c \<and> a \<noteq> [] \<and> b \<noteq> [] \<and> c \<noteq> []
          \<and> list_all not_space_or_at a \<and> list_all not_space_or_at b
          \<and> list_all not_space_or_at c"
    unfolding emailRegex_def
    by (simp only: lang_Seq lang_Plus_Atom lang_char) auto
next
  assume "\<exists>a b c. s = a @ ''@'' @ b @ ''.'' @ c \<and> a \<noteq> [] \<and> b \<noteq> [] \<and> c \<noteq> []
          \<and> list_all not_space_or_at a \<and> list_all not_space_or_at b
          \<and> list_all not_space_or_at c"
  then obtain a b c where s: "s = a @ ''@'' @ b @ ''.'' @ c"
    and a: "a \<in> lang (Plus (Atom not_space_or_at))"
    and b: "b \<in> lang (Plus (Atom not_space_or_at))"
    and c: "c \<in> lang (Plus (Atom not_space_or_at))"
    by (auto simp: lang_Plus_Atom)
  have at: "''@'' \<in> lang (Atom (\<lambda>c. c = CHR ''@''))" and dot: "''.'' \<in> lang (Atom (\<lambda>c. c = CHR ''.''))"
    by simp_all
  have "s \<in> lang emailRegex"
    unfolding s emailRegex_def
    by (intro lang_SeqI a b c at dot)
  then show "regex_matches emailRegex s" by (simp add: regex_matches_lang)
qed

lemma emailRegex_not_nullable: "\<not> nullable emailRegex"
  by (simp add: emailRegex_def Plus_def)

lemma validateEmail_valid: "valid (validateEmail email) = email_has_format email"
  by (auto simp: validateEmail_def validation_result_def email_has_format_def
      emailRegex_not_nullable split: option.splits)

lemma validatePassword_valid: "valid (validatePassword password) = password_is_strong password"
  by (auto simp: validatePassword_def validation_result_def password_is_strong_def
      split: option.splits)

lemma errors_empty_iff_valid_email: "(errors (validateEmail email) = []) = valid (validateEmail email)"
  by (simp add: validateEmail_def validation_result_def)

lemma errors_empty_iff_valid_password:
  "(errors (validatePassword password) = []) = valid (validatePassword password)"
  by (simp add: validatePassword_def validation_result_def)

lemma validateRegistration_valid:
  "valid (validateRegistration input)
     = (email_has_format (reg_email input) \<and> password_is_strong (reg_password input)
        \<and> name_is_long_enough (reg_name input))"
proof -
  have name: "((case reg_name input of
                  None \<Rightarrow> [''Name must be at least 2 characters long'']
                | Some n \<Rightarrow> (if n = [] \<or> length (trim n) < 2
                             then [''Name must be at least 2 characters long''] else [])) = [])
              = name_is_long_enough (reg_name input)"
    by (auto simp: name_is_long_enough_def trim_def split: option.splits)
  show ?thesis
    unfolding validateRegistration_def Let_def validation_result_def
    using name
    by (simp add: errors_empty_iff_valid_email errors_empty_iff_valid_password
        validateEmail_valid validatePassword_valid)
qed

lemma register_status_valid:
  assumes "valid (validateRegistration input)"
  shows "status (fst (register E d input salt now)) \<in> {201, 409, 500}"
  using assms
  by (auto simp: register_def Let_def email_taken_def internal_error_def error_response_def
      success_response_def split: option.splits sum.splits prod.splits)

text \<open>
  Claim C9. A register request is answered 400 exactly when it breaks a rule: the email
  does not match the email pattern, or the password is shorter than 8 characters or
  lacks an upper-case letter, a lower-case letter or a digit, or the trimmed name is
  shorter than 2 characters. The 400 answer is the validation error with the list of
  messages; it is computed from the body alone, and the store is returned as it was:
  no identity is created and no refresh record is stored.
\<close>

theorem register_validation:
  "(status (fst (register E d input salt now)) = 400)
     = (\<not> (email_has_format (reg_email input) \<and> password_is_strong (reg_password input)
           \<and> name_is_long_enough (reg_name input)))
   \<and> (\<not> (email_has_format (reg_email input) \<and> password_is_strong (reg_password input)
           \<and> name_is_long_enough (reg_name input))
        \<longrightarrow> register E d input salt now
              = (error_response 400 ''Validation Error'' ''Invalid input data''
                   (Some (ValidationErrors (errors (validateRegistration input)))) now, d))"
proof (cases "valid (validateRegistration input)")
  case True
  then have "status (fst (register E d input salt now)) \<noteq> 400"
    using register_status_valid [OF True, of E d salt now] by auto
  with True show ?thesis
    by (simp add: validateRegistration_valid)
next
  case False
  then have "register E d input salt now
      = (validation_failed (errors (validateRegistration input)) now, d)"
    by (simp add: register_def)
  with False show ?thesis
    by (simp add: validateRegistration_valid validation_failed_def error_response_def)
qed

lemma alice_is_valid: "valid (validateRegistration alice_registration)"
  by code_simp

theorem register_validation_witness:
  "status (fst (register example_env empty_db alice_registration ''salt'' 0)) \<noteq> 400
   \<and> register example_env empty_db (alice_registration\<lparr>reg_password := Some ''password''\<rparr>) ''salt'' 0
       = (error_response 400 ''Validation Error'' ''Invalid input data''
            (Some (ValidationErrors
               [''Password must contain at least one uppercase letter'',
                ''Password must contain at least one number''])) 0, empty_db)"
proof -
  let ?weak = "alice_registration\<lparr>reg_password := Some ''password''\<rparr>"
  have ok: "email_has_format (reg_email alice_registration)
            \<and> password_is_strong (reg_password alice_registration)
            \<and> name_is_long_enough (reg_name alice_registration)"
    by code_simp
  have weak: "\<not> password_is_strong (reg_password ?weak)"
    by code_simp
  have errs: "errors (validateRegistration ?weak)
      = [''Password must contain at least one uppercase letter'',
         ''Password must contain at least one number'']"
    by code_simp
  from register_validation [of example_env empty_db alice_registration "''salt''" 0] ok
  have a: "status (fst (register example_env empty_db alice_registration ''salt'' 0)) \<noteq> 400"
    by blast
  from register_validation [of example_env empty_db ?weak "''salt''" 0] weak
  have b: "register example_env empty_db ?weak ''salt'' 0
      = (error_response 400 ''Validation Error'' ''Invalid input data''
                   (Some (ValidationErrors (errors (validateRegistration ?weak)))) 0, empty_db)"
    by blast
  from a b show ?thesis
    unfolding errs by simp
qed

section \<open>The scenario, evaluated\<close>

lemmas string_eval =
  toUpperCase_def toLowerCase_def upper_char_def lower_char_def is_upper_def is_lower_def
  is_digit_def is_space_def digit_char_def digit_val_def digits_value_def char_of_def bit_0
  toString_def nat_toString.simps parseInt_def endsWith_def startsWith_def

lemma alice_payload_eq: "token_payload alice_user = alice_payload"
  by (simp add: token_payload_def alice_user_def alice_payload_def string_eval)

lemma sign_refresh_second_0: "generateRefreshToken example_env alice_payload t = alice_token"
  if "clock_seconds t = 0"
  using that
  by (simp add: generateRefreshToken_def example_env_def example_sign_def alice_payload_def
      alice_token_def expiry_seconds_def string_eval)

lemma sign_access_second_0:
  "generateAccessToken example_env alice_payload t = ''access-secret|c1|alice@example.com|viewer|0|900''"
  if "clock_seconds t = 0"
  using that
  by (simp add: generateAccessToken_def example_env_def example_sign_def alice_payload_def
      expiry_seconds_def string_eval)

lemma verify_alice_token:
  "verifyRefreshToken example_env alice_token t = (if clock_seconds t < 604800 then Some alice_payload else None)"
  by (simp add: verifyRefreshToken_def example_env_def example_verify_def alice_token_def
      alice_payload_def string_eval)

lemma alice_registered:
  "register example_env empty_db alice_registration ''salt'' 0
     = (success_response 201
          (auth_payload alice_user ''access-secret|c1|alice@example.com|viewer|0|900'' alice_token) 0,
        alice_db)"
proof -
  have fields: "reg_email alice_registration = Some ''alice@example.com''"
    "reg_password alice_registration = Some ''Passw0rd!''"
    "reg_name alice_registration = Some ''Alice''" "reg_role alice_registration = None"
    by (simp_all add: alice_registration_def)
  have up: "toUpperCase ''viewer'' = ''VIEWER''"
    by (simp add: string_eval)
  have cr: "user_create empty_db ''alice@example.com'' (hashPassword example_env ''Passw0rd!'' ''salt'')
              ''Alice'' ''VIEWER''
            = Inr (alice_user, \<lparr>users = [alice_user], refreshTokens = [], next_id = 2\<rparr>)"
    by (simp add: user_create_def user_findUnique_def empty_db_def new_id_def alice_user_def
        hashPassword_def example_env_def Let_def string_eval)
  have rt: "refreshToken_create \<lparr>users = [alice_user], refreshTokens = [], next_id = 2\<rparr>
              alice_token ''c1'' seven_days = Inr alice_db"
    by (simp add: refreshToken_create_def new_id_def alice_db_def session_db_def seven_days_def
        string_eval)
  have uid: "user_id alice_user = ''c1''" by (simp add: alice_user_def)
  have none: "user_findUnique empty_db ''alice@example.com'' = None"
    by (simp add: user_findUnique_def empty_db_def)
  show ?thesis
    by (simp add: register_def alice_is_valid fields none up cr alice_payload_eq
        sign_refresh_second_0 sign_access_second_0 clock_seconds_def rt uid Let_def)
qed

section \<open>Login\<close>

text \<open>
  Claim C4, as stated, fails for a pair with an empty password: no identity exists for
  the email, and the answer is the 400 of the required-fields check, not a 401.
\<close>

theorem login_with_empty_password_gets_400:
  "user_findUnique empty_db ''ghost@example.com'' = None
   \<and> fst (login example_env empty_db
           \<lparr>login_email = Some ''ghost@example.com'', login_password = Some ''''\<rparr> 0)
     = error_response 400 ''Bad Request'' ''Email and password are required'' None 0"
  by (simp add: login_def falsy_def credentials_required_def user_findUnique_def empty_db_def)

text \<open>
  Claim C4, amended. For every email and password (two strings), the login where no
  identity exists for the email and the login where the identity exists but the password
  does not verify get the same response, and both leave the store as it was. When email
  and password are both non-empty, that response is the 401 \<open>Unauthorized\<close> /
  \<open>Invalid credentials\<close> error; when one of them is empty, it is the 400 \<open>Bad Request\<close> /
  \<open>Email and password are required\<close> error of the required-fields check, which a body
  with a missing field gets as well, whatever the store holds.
\<close>

theorem login_failures_indistinguishable:
  assumes "user_findUnique d1 email = None"
    and "user_findUnique d2 email = Some u"
    and "\<not> verifyPassword E password (user_password u)"
  shows "fst (login E d1 \<lparr>login_email = Some email, login_password = Some password\<rparr> now)
           = fst (login E d2 \<lparr>login_email = Some email, login_password = Some password\<rparr> now)
       \<and> (email \<noteq> [] \<and> password \<noteq> [] \<longrightarrow>
            login E d1 \<lparr>login_email = Some email, login_password = Some password\<rparr> now
              = (error_response 401 ''Unauthorized'' ''Invalid credentials'' None now, d1)
          \<and> login E d2 \<lparr>login_email = Some email, login_password = Some password\<rparr> now
              = (error_response 401 ''Unauthorized'' ''Invalid credentials'' None now, d2))
       \<and> (email = [] \<or> password = [] \<longrightarrow>
            login E d1 \<lparr>login_email = Some email, login_password = Some password\<rparr> now
              = (error_response 400 ''Bad Request'' ''Email and password are required'' None now, d1)
          \<and> login E d2 \<lparr>login_email = Some email, login_password = Some password\<rparr> now
              = (error_response 400 ''Bad Request'' ''Email and password are required'' None now, d2))
       \<and> (\<forall>d input. falsy (login_email input) \<or> falsy (login_password input) \<longrightarrow>
            login E d input now
              = (error_response 400 ''Bad Request'' ''Email and password are required'' None now, d))"
  using assms
  by (auto simp: login_def falsy_def invalid_credentials_def credentials_required_def)

lemma find_alice: "user_findUnique alice_db ''alice@example.com'' = Some alice_user"
  by (simp add: user_findUnique_def alice_db_def session_db_def alice_user_def)

theorem login_failures_indistinguishable_witness:
  "login example_env empty_db
     \<lparr>login_email = Some ''alice@example.com'', login_password = Some ''wrong''\<rparr> 5000
     = (error_response 401 ''Unauthorized'' ''Invalid credentials'' None 5000, empty_db)
   \<and> login example_env alice_db
     \<lparr>login_email = Some ''alice@example.com'', login_password = Some ''wrong''\<rparr> 5000
     = (error_response 401 ''Unauthorized'' ''Invalid credentials'' None 5000, alice_db)
   \<and> login example_env empty_db
     \<lparr>login_email = Some ''alice@example.com'', login_password = Some ''''\<rparr> 5000
     = (error_response 400 ''Bad Request'' ''Email and password are required'' None 5000, empty_db)
   \<and> login example_env alice_db
     \<lparr>login_email = Some ''alice@example.com'', login_password = Some ''''\<rparr> 5000
     = (error_response 400 ''Bad Request'' ''Email and password are required'' None 5000, alice_db)
   \<and> login example_env alice_db
     \<lparr>login_email = Some ''alice@example.com'', login_password = None\<rparr> 5000
     = (error_response 400 ''Bad Request'' ''Email and password are required'' None 5000, alice_db)"
proof -
  have none: "user_findUnique empty_db ''alice@example.com'' = None"
    by (simp add: user_findUnique_def empty_db_def)
  have wrong: "\<not> verifyPassword example_env ''wrong'' (user_password alice_user)"
    "\<not> verifyPassword example_env '''' (user_password alice_user)"
    by (simp_all add: alice_user_def verifyPassword_def example_env_def endsWith_def)
  have missing: "falsy (login_email \<lparr>login_email = Some ''alice@example.com'', login_password = None\<rparr>)
      \<or> falsy (login_password \<lparr>login_email = Some ''alice@example.com'', login_password = None\<rparr>)"
    by (simp add: falsy_def)
  from login_failures_indistinguishable [OF none find_alice wrong(1), of 5000]
  have a: "login example_env empty_db
     \<lparr>login_email = Some ''alice@example.com'', login_password = Some ''wrong''\<rparr> 5000
     = (error_response 401 ''Unauthorized'' ''Invalid credentials'' None 5000, empty_db)
   \<and> login example_env alice_db
     \<lparr>login_email = Some ''alice@example.com'', login_password = Some ''wrong''\<rparr> 5000
     = (error_response 401 ''Unauthorized'' ''Invalid credentials'' None 5000, alice_db)"
    by simp
  from login_failures_indistinguishable [OF none find_alice wrong(2), of 5000]
  have b: "login example_env empty_db
     \<lparr>login_email = Some ''alice@example.com'', login_password = Some ''''\<rparr> 5000
     = (error_response 400 ''Bad Request'' ''Email and password are required'' None 5000, empty_db)
   \<and> login example_env alice_db
     \<lparr>login_email = Some ''alice@example.com'', login_password = Some ''''\<rparr> 5000
     = (error_response 400 ''Bad Request'' ''Email and password are required'' None 5000, alice_db)"
    by simp
  from login_failures_indistinguishable [OF none find_alice wrong(1), of 5000] missing
  have c: "login example_env alice_db
     \<lparr>login_email = Some ''alice@example.com'', login_password = None\<rparr> 5000
     = (error_response 400 ''Bad Request'' ''Email and password are required'' None 5000, alice_db)"
    by blast
  from a b c show ?thesis by simp
qed

section \<open>Registration: the role\<close>

lemma admin_is_valid: "valid (validateRegistration admin_registration)"
  using alice_is_valid
  by (simp add: validateRegistration_def admin_registration_def alice_registration_def)

text \<open>
  Claim C3, as stated, fails when the email is taken: the request passes validation and
  asks for role \<open>admin\<close>, and is answered 409.
\<close>

theorem register_taken_email_gets_409:
  "valid (validateRegistration admin_registration)
   \<and> reg_role admin_registration = Some ''admin''
   \<and> register example_env alice_db admin_registration ''salt'' 1000
       = (error_response 409 ''Conflict'' ''User with this email already exists'' None 1000,
          alice_db)"
proof -
  have fields: "reg_email admin_registration = Some ''alice@example.com''"
    "reg_password admin_registration = Some ''Passw0rd!''"
    "reg_name admin_registration = Some ''Alice''" "reg_role admin_registration = Some ''admin''"
    by (simp_all add: admin_registration_def alice_registration_def)
  show ?thesis
    by (simp add: admin_is_valid register_def find_alice email_taken_def fields)
qed

lemma register_success:
  assumes "valid (validateRegistration input)"
    and "reg_email input = Some email" and "reg_password input = Some password"
    and "reg_name input = Some name"
    and "user_findUnique d email = None"
    and "find (\<lambda>r. token r = generateRefreshToken E
                 (token_payload (new_user E d email password name (requested_role input) salt)) now)
           (refreshTokens d) = None"
  shows "\<exists>d'. register E d input salt now
           = (success_response 201
                (auth_payload (new_user E d email password name (requested_role input) salt)
                   (generateAccessToken E
                      (token_payload (new_user E d email password name (requested_role input) salt)) now)
                   (generateRefreshToken E
                      (token_payload (new_user E d email password name (requested_role input) salt)) now))
                now, d')
         \<and> users d' = users d @ [new_user E d email password name (requested_role input) salt]"
  using assms
  by (simp add: register_def Let_def user_create_def refreshToken_create_def new_user_def
      requested_role_def)


text \<open>
  Claim C3, amended. \<open>register\<close> takes the role string of the body (\<open>viewer\<close> only when the
  body has none) and stores it upper-cased, with no check against the four roles: a
  request that passes validation, for an email that is not registered yet (and whose
  new refresh token is not in the store already), is answered 201 and the identity is
  created with that role. With role \<open>admin\<close> the stored role is \<open>ADMIN\<close>, the payload
  signed into both tokens has role \<open>admin\<close>, and the permissions returned are \<open>['*']\<close>.
\<close>

theorem register_role_unchecked:
  assumes "valid (validateRegistration input)"
    and "reg_email input = Some email" and "reg_password input = Some password"
    and "reg_name input = Some name"
    and "user_findUnique d email = None"
    and "find (\<lambda>r. token r = generateRefreshToken E
                 (token_payload (new_user E d email password name (requested_role input) salt)) now)
           (refreshTokens d) = None"
  shows "\<exists>u d'. register E d input salt now
           = (success_response 201
                (auth_payload u (generateAccessToken E (token_payload u) now)
                   (generateRefreshToken E (token_payload u) now)) now, d')
         \<and> users d' = users d @ [u]
         \<and> user_email u = email
         \<and> user_role u = toUpperCase (requested_role input)
         \<and> (reg_role input = Some ''admin'' \<longrightarrow>
              user_role u = ''ADMIN''
              \<and> payload_role (token_payload u) = ''admin''
              \<and> auth_role (user (auth_payload u (generateAccessToken E (token_payload u) now)
                                    (generateRefreshToken E (token_payload u) now))) = ''admin''
              \<and> permissions (user (auth_payload u (generateAccessToken E (token_payload u) now)
                                      (generateRefreshToken E (token_payload u) now))) = Own [''*''])"
proof -
  let ?u = "new_user E d email password name (requested_role input) salt"
  from register_success [OF assms]
  obtain d' where reg: "register E d input salt now
           = (success_response 201
                (auth_payload ?u (generateAccessToken E (token_payload ?u) now)
                   (generateRefreshToken E (token_payload ?u) now)) now, d')"
    and us: "users d' = users d @ [?u]"
    by blast
  have role: "user_role ?u = toUpperCase (requested_role input)" and em: "user_email ?u = email"
    by (simp_all add: new_user_def)
  have admin: "user_role ?u = ''ADMIN''
      \<and> payload_role (token_payload ?u) = ''admin''
      \<and> auth_role (user (auth_payload ?u a b)) = ''admin''
      \<and> permissions (user (auth_payload ?u a b)) = Own [''*'']"
    if "reg_role input = Some ''admin''" for a b
    using that
    by (simp add: new_user_def requested_role_def token_payload_def auth_payload_def
        getPermissions_def permissions_table_def string_eval)
  from reg us role em admin show ?thesis
    by blast
qed

theorem register_role_unchecked_witness:
  "status (fst (register example_env empty_db admin_registration ''salt'' 0)) = 201
   \<and> map_option (\<lambda>p. permissions (user p))
        (data (body (fst (register example_env empty_db admin_registration ''salt'' 0))))
       = Some (Own [''*''])
   \<and> map user_role (users (snd (register example_env empty_db admin_registration ''salt'' 0)))
       = [''ADMIN'']"
proof -
  have fields: "reg_email admin_registration = Some ''alice@example.com''"
    "reg_password admin_registration = Some ''Passw0rd!''"
    "reg_name admin_registration = Some ''Alice''"
    and role: "reg_role admin_registration = Some ''admin''"
    by (simp_all add: admin_registration_def alice_registration_def)
  have none: "user_findUnique empty_db ''alice@example.com'' = None"
    by (simp add: user_findUnique_def empty_db_def)
  have fresh: "find (\<lambda>r. token r = t) (refreshTokens empty_db) = None" for t
    by (simp add: empty_db_def)
  from register_role_unchecked [OF admin_is_valid fields none fresh, of example_env "''salt''" 0] role
  obtain u d' where reg: "register example_env empty_db admin_registration ''salt'' 0
           = (success_response 201
                (auth_payload u (generateAccessToken example_env (token_payload u) 0)
                   (generateRefreshToken example_env (token_payload u) 0)) 0, d')"
    and us: "users d' = users empty_db @ [u]" and r: "user_role u = ''ADMIN''"
    and p: "permissions (user (auth_payload u (generateAccessToken example_env (token_payload u) 0)
                                      (generateRefreshToken example_env (token_payload u) 0))) = Own [''*'']"
    by blast
  show ?thesis
    unfolding reg using us r p by (simp add: success_response_def empty_db_def)
qed

section \<open>Refresh: rotation\<close>

lemma find_absent: "T \<notin> token ` set rs \<Longrightarrow> find (\<lambda>r. token r = T) (filter P rs) = None"
  by (induction rs) auto

lemma find_after_delete:
  assumes "distinct (map token rs)" and "find (\<lambda>r. token r = T) rs = Some r0"
  shows "find (\<lambda>r. token r = T) (filter (\<lambda>r. token_id r \<noteq> token_id r0) rs) = None"
  using assms
proof (induction rs)
  case Nil
  then show ?case by simp
next
  case (Cons r rs)
  show ?case
  proof (cases "token r = T")
    case True
    with Cons.prems have "r = r0" and "T \<notin> token ` set rs" by auto
    then show ?thesis by (simp add: find_absent)
  next
    case False
    with Cons show ?thesis by auto
  qed
qed

lemma find_snoc: "find P xs = None \<Longrightarrow> find P (xs @ [y]) = (if P y then Some y else None)"
  by (induction xs) (auto split: if_splits)

lemma find_Some_mem: "find P xs = Some x \<Longrightarrow> x \<in> set xs"
  by (induction xs) (auto split: if_splits)

lemma find_filter_None: "find P xs = None \<Longrightarrow> find P (filter Q xs) = None"
  by (induction xs) (auto split: if_splits)

lemma refresh_verify_ok:
  "refresh_verify E input now = Inr presented \<Longrightarrow> input = Some presented \<and> presented \<noteq> []"
  by (auto simp: refresh_verify_def split: option.splits if_splits)

lemma refresh_verify_error_status:
  "refresh_verify E input now = Inl r \<Longrightarrow> status r \<in> {400, 401}"
  by (auto simp: refresh_verify_def refresh_token_required_def invalid_refresh_token_def
      error_response_def split: option.splits if_splits)

lemma refresh_lookup_error_status:
  "refresh_lookup E d presented now = Inl r \<Longrightarrow> status r \<in> {401, 500}"
  by (auto simp: refresh_lookup_def invalid_refresh_token_def
      internal_error_def error_response_def split: option.splits if_splits prod.splits)

lemma refresh_lookup_found:
  assumes "refresh_lookup E d presented now = Inr rot"
  shows "find (\<lambda>r. token r = presented) (refreshTokens d) = Some (storedToken rot)
       \<and> newRefreshToken rot = generateRefreshToken E (token_payload (owner rot)) now"
  using assms
  by (auto simp: refresh_lookup_def refreshToken_findUnique_def
      split: option.splits if_splits prod.splits)

lemma refresh_lookup_absent:
  assumes "find (\<lambda>r. token r = presented) (refreshTokens d) = None"
  shows "refresh_lookup E d presented now = Inl (invalid_refresh_token now)"
  using assms
  by (simp add: refresh_lookup_def refreshToken_findUnique_def split: option.splits)

lemma refresh_delete_found:
  assumes "find (\<lambda>r. token r = presented) (refreshTokens d) = Some (storedToken rot)"
  shows "refresh_delete E d rot now
           = Inr (d\<lparr>refreshTokens := filter (\<lambda>r. token_id r \<noteq> token_id (storedToken rot))
                                       (refreshTokens d)\<rparr>, now + seven_days)"
proof -
  have "storedToken rot \<in> set (refreshTokens d)"
    using assms by (rule find_Some_mem)
  then have "find (\<lambda>r. token_id r = token_id (storedToken rot)) (refreshTokens d) \<noteq> None"
    by (auto simp: find_None_iff)
  then show ?thesis
    by (simp add: refresh_delete_def refreshToken_delete_def)
qed

text \<open>A token that is not in the store is answered 401, and the store stays as it is.\<close>

lemma refresh_absent:
  assumes "find (\<lambda>r. token r = presented) (refreshTokens d) = None" and "presented \<noteq> []"
  shows "refresh E d (Some presented) later = (invalid_refresh_token later, d)"
  using assms
  by (simp add: refresh_def refresh_verify_def refresh_lookup_absent split: option.splits)

text \<open>
  A successful rotation leaves the presented token out of the store, if the token it
  minted is another string.
\<close>

lemma rotation_removes:
  assumes "distinct (map token (refreshTokens d))"
    and "refresh E d (Some presented) now = (r, d1)" and "status r = 200"
    and "\<And>p. generateRefreshToken E p now \<noteq> presented"
  shows "find (\<lambda>r. token r = presented) (refreshTokens d1) = None \<and> presented \<noteq> []"
proof -
  obtain p where V: "refresh_verify E (Some presented) now = Inr p"
    using assms(2,3) refresh_verify_error_status [of E "Some presented" now]
    by (cases "refresh_verify E (Some presented) now") (auto simp: refresh_def)
  from refresh_verify_ok [OF V] have p: "p = presented" and ne: "presented \<noteq> []"
    by simp_all
  obtain rot where L: "refresh_lookup E d presented now = Inr rot"
    using assms(2,3) refresh_lookup_error_status [of E d presented now]
    by (cases "refresh_lookup E d presented now") (auto simp: refresh_def V p)
  from refresh_lookup_found [OF L]
  have st: "find (\<lambda>r. token r = presented) (refreshTokens d) = Some (storedToken rot)"
    and new: "newRefreshToken rot = generateRefreshToken E (token_payload (owner rot)) now"
    by auto
  let ?d' = "d\<lparr>refreshTokens := filter (\<lambda>r. token_id r \<noteq> token_id (storedToken rot))
                                       (refreshTokens d)\<rparr>"
  have D: "refresh_delete E d rot now = Inr (?d', now + seven_days)"
    using st by (rule refresh_delete_found)
  have C: "refresh_create ?d' rot (now + seven_days) now = (r, d1)"
    using assms(2) by (simp add: refresh_def V p L D)
  have gone: "find (\<lambda>r. token r = presented) (refreshTokens ?d') = None"
    using find_after_delete [OF assms(1) st] by simp
  have "newRefreshToken rot \<noteq> presented"
    unfolding new by (rule assms(4))
  then have "find (\<lambda>r. token r = presented) (refreshTokens d1) = None"
    using C gone
    by (auto simp: refresh_create_def refreshToken_create_def find_snoc split: option.splits)
  with ne show ?thesis by simp
qed

text \<open>
  No handler puts a token string into the store that it has not just signed: a string
  that is not in the store and is not signed at the clock reading of the call is not in
  the store after the call.
\<close>

lemma create_keeps_absent:
  assumes "find (\<lambda>r. token r = T) (refreshTokens d) = None" and "tok \<noteq> T"
    and "refreshToken_create d tok uid expires = Inr d1"
  shows "find (\<lambda>r. token r = T) (refreshTokens d1) = None"
  using assms by (auto simp: refreshToken_create_def find_snoc split: option.splits)

lemma user_create_tokens:
  "user_create d email password name role = Inr (u, d1) \<Longrightarrow> refreshTokens d1 = refreshTokens d"
  by (auto simp: user_create_def Let_def split: option.splits)

lemma register_keeps_absent:
  assumes "find (\<lambda>r. token r = T) (refreshTokens d) = None"
    and "\<And>p. generateRefreshToken E p now \<noteq> T"
  shows "find (\<lambda>r. token r = T) (refreshTokens (snd (register E d input salt now))) = None"
proof (cases "valid (validateRegistration input)")
  case False
  with assms(1) show ?thesis by (simp add: register_def)
next
  case True
  show ?thesis
  proof (cases "reg_email input")
    case None
    with True assms(1) show ?thesis by (simp add: register_def)
  next
    case email: (Some email)
    show ?thesis
    proof (cases "reg_password input")
      case None
      with True email assms(1) show ?thesis by (simp add: register_def)
    next
      case password: (Some password)
      show ?thesis
      proof (cases "reg_name input")
        case None
        with True email password assms(1) show ?thesis by (simp add: register_def)
      next
        case name: (Some name)
        show ?thesis
        proof (cases "user_findUnique d email")
          case (Some existing)
          with True email password name assms(1) show ?thesis by (simp add: register_def)
        next
          case None
          let ?role = "toUpperCase (case reg_role input of None \<Rightarrow> ''viewer'' | Some r \<Rightarrow> r)"
          show ?thesis
          proof (cases "user_create d email (hashPassword E password salt) name ?role")
            case (Inl e)
            with True email password name None assms(1) show ?thesis
              by (simp add: register_def Let_def)
          next
            case (Inr ud)
            obtain u d1 where ud: "ud = (u, d1)" by (cases ud)
            have t1: "find (\<lambda>r. token r = T) (refreshTokens d1) = None"
              using user_create_tokens [OF Inr [unfolded ud]] assms(1) by simp
            show ?thesis
            proof (cases "refreshToken_create d1 (generateRefreshToken E (token_payload u) now)
                            (user_id u) (now + seven_days)")
              case e: (Inl e)
              with True email password name None Inr ud t1 show ?thesis
                by (simp add: register_def Let_def)
            next
              case d2: (Inr d2)
              from create_keeps_absent [OF t1 assms(2) d2]
              have "find (\<lambda>r. token r = T) (refreshTokens d2) = None" .
              with True email password name None Inr ud d2 show ?thesis
                by (simp add: register_def Let_def)
            qed
          qed
        qed
      qed
    qed
  qed
qed

lemma login_keeps_absent:
  assumes "find (\<lambda>r. token r = T) (refreshTokens d) = None"
    and "\<And>p. generateRefreshToken E p now \<noteq> T"
  shows "find (\<lambda>r. token r = T) (refreshTokens (snd (login E d input now))) = None"
proof -
  have "snd (login E d input now) = d
        \<or> (\<exists>u. refreshToken_create d (generateRefreshToken E (token_payload u) now) (user_id u)
                  (now + seven_days) = Inr (snd (login E d input now)))"
    by (auto simp: login_def Let_def split: option.splits sum.splits)
  then show ?thesis
    using assms(1) create_keeps_absent [OF assms(1) assms(2)] by auto
qed

lemma refresh_keeps_absent:
  assumes "find (\<lambda>r. token r = T) (refreshTokens d) = None"
    and "\<And>p. generateRefreshToken E p now \<noteq> T"
  shows "find (\<lambda>r. token r = T) (refreshTokens (snd (refresh E d input now))) = None"
proof (cases "refresh_verify E input now")
  case (Inl r)
  with assms(1) show ?thesis by (simp add: refresh_def)
next
  case V: (Inr presented)
  show ?thesis
  proof (cases "refresh_lookup E d presented now")
    case (Inl r)
    with V assms(1) show ?thesis by (simp add: refresh_def)
  next
    case L: (Inr rot)
    from refresh_lookup_found [OF L]
    have new: "newRefreshToken rot = generateRefreshToken E (token_payload (owner rot)) now"
      by simp
    show ?thesis
    proof (cases "refresh_delete E d rot now")
      case (Inl r)
      with V L assms(1) show ?thesis by (simp add: refresh_def)
    next
      case D: (Inr de)
      obtain d1 expires where de: "de = (d1, expires)" by (cases de)
      have t1: "find (\<lambda>r. token r = T) (refreshTokens d1) = None"
        using D assms(1)
        by (auto simp: de refresh_delete_def refreshToken_delete_def find_filter_None
            split: sum.splits if_splits)
      show ?thesis
      proof (cases "refreshToken_create d1 (newRefreshToken rot) (user_id (owner rot)) expires")
        case (Inl e)
        with V L D de t1 show ?thesis by (simp add: refresh_def refresh_create_def)
      next
        case C: (Inr d2)
        have "newRefreshToken rot \<noteq> T"
          unfolding new by (rule assms(2))
        from create_keeps_absent [OF t1 this C]
        have "find (\<lambda>r. token r = T) (refreshTokens d2) = None" .
        with V L D de C show ?thesis by (simp add: refresh_def refresh_create_def)
      qed
    qed
  qed
qed

lemma handle_keeps_absent:
  assumes "find (\<lambda>r. token r = T) (refreshTokens d) = None"
    and "\<And>p. generateRefreshToken E p now \<noteq> T"
  shows "find (\<lambda>r. token r = T) (refreshTokens (snd (handle E d call now))) = None"
  using register_keeps_absent [OF assms] login_keeps_absent [OF assms]
    refresh_keeps_absent [OF assms]
  by (cases call) simp_all

lemma serve_calls_keep_absent:
  assumes "find (\<lambda>r. token r = T) (refreshTokens d) = None"
    and "list_all (\<lambda>(call, t). \<forall>p. generateRefreshToken E p t \<noteq> T) calls"
  shows "find (\<lambda>r. token r = T) (refreshTokens (serve_calls E d calls)) = None"
  using assms
proof (induction calls arbitrary: d)
  case Nil
  then show ?case by simp
next
  case (Cons x calls)
  obtain call t where x: "x = (call, t)" by (cases x)
  from Cons.prems(2) have now: "\<And>p. generateRefreshToken E p t \<noteq> T"
    and rest: "list_all (\<lambda>(call, t). \<forall>p. generateRefreshToken E p t \<noteq> T) calls"
    by (simp_all add: x)
  from handle_keeps_absent [OF Cons.prems(1) now]
  have "find (\<lambda>r. token r = T) (refreshTokens (snd (handle E d call t))) = None" .
  from Cons.IH [OF this rest] show ?case
    by (simp add: x)
qed

text \<open>
  With any library: in the second in which a refresh token was signed, signing the same
  payload gives the same token again.
\<close>

lemma same_second_same_token:
  "clock_seconds t1 = clock_seconds t0
     \<Longrightarrow> generateRefreshToken E p t1 = generateRefreshToken E p t0"
  by (simp add: generateRefreshToken_def)

text \<open>
  Claim C2, as stated, fails when the rotation happens in the second in which the token
  was issued: \<open>jwt.sign\<close> gets the same payload, secret and \<open>iat\<close>, so the new refresh token
  is the old string, the rotation stores it again, and the next call with it succeeds.
\<close>

lemma refresh_session:
  assumes "clock_seconds t < 604800" and "t \<le> e"
  shows "refresh example_env (session_db i alice_token e n) (Some alice_token) t
           = (success_response 200
                (auth_payload alice_user (generateAccessToken example_env alice_payload t)
                   (generateRefreshToken example_env alice_payload t)) t,
              session_db (new_id (session_db i alice_token e n))
                (generateRefreshToken example_env alice_payload t) (t + seven_days) (Suc n))"
proof -
  let ?d = "session_db i alice_token e n"
  let ?stored = "\<lparr>token_id = i, token = alice_token, token_userId = ''c1'', expiresAt = e\<rparr>"
  let ?rot = "\<lparr>storedToken = ?stored, owner = alice_user,
               newAccessToken = generateAccessToken example_env alice_payload t,
               newRefreshToken = generateRefreshToken example_env alice_payload t\<rparr>"
  have ne: "alice_token \<noteq> []" by (simp add: alice_token_def)
  have V: "refresh_verify example_env (Some alice_token) t = Inr alice_token"
    using assms by (simp add: refresh_verify_def ne verify_alice_token)
  have L: "refresh_lookup example_env ?d alice_token t = Inr ?rot"
    using assms
    by (simp add: refresh_lookup_def refreshToken_findUnique_def
        session_db_def alice_payload_eq)
      (simp add: alice_user_def)
  have D: "refresh_delete example_env ?d ?rot t = Inr (?d\<lparr>refreshTokens := []\<rparr>, t + seven_days)"
    by (simp add: refresh_delete_def refreshToken_delete_def session_db_def)
  have C: "refresh_create (?d\<lparr>refreshTokens := []\<rparr>) ?rot (t + seven_days) t
      = (success_response 200
                (auth_payload alice_user (generateAccessToken example_env alice_payload t)
                   (generateRefreshToken example_env alice_payload t)) t,
              session_db (new_id ?d)
                (generateRefreshToken example_env alice_payload t) (t + seven_days) (Suc n))"
    by (simp add: refresh_create_def refreshToken_create_def session_db_def new_id_def)
      (simp add: alice_user_def)
  show ?thesis
    by (simp only: refresh_def V L D C sum.case prod.case)
qed

theorem rotated_token_accepted_again:
  "status (fst (refresh example_env alice_db (Some alice_token) 500)) = 200
   \<and> status (fst (refresh example_env (snd (refresh example_env alice_db (Some alice_token) 500))
                  (Some alice_token) 900)) = 200"
proof -
  have first: "refresh example_env alice_db (Some alice_token) 500
      = (success_response 200
           (auth_payload alice_user (generateAccessToken example_env alice_payload 500) alice_token) 500,
         session_db (new_id alice_db) alice_token (500 + seven_days) 4)"
    unfolding alice_db_def
    by (subst refresh_session) (simp_all add: clock_seconds_def sign_refresh_second_0)
  have second: "status (fst (refresh example_env
                    (session_db (new_id alice_db) alice_token (500 + seven_days) 4)
                    (Some alice_token) 900)) = 200"
    by (subst refresh_session)
      (simp_all add: clock_seconds_def seven_days_def success_response_def)
  show ?thesis
    unfolding first using second by (simp add: success_response_def)
qed

text \<open>
  Claim C2, amended. Take a \<open>jwt.sign\<close> whose refresh tokens differ when their issue
  seconds differ (it writes the issue second into the token), a refresh token issued by
  \<open>generateRefreshToken\<close>, and a store that holds each token string once. After a refresh
  call has rotated the token (answer 200) in a later second than the one it was issued
  in, every later refresh call presenting it is answered 401 \<open>Invalid or expired refresh
  token\<close>, whether or not the token still verifies, and leaves the store as it is:
  directly afterwards, and after any sequence of registrations, logins and refreshes
  served in between.
\<close>

theorem rotated_token_is_rejected:
  assumes "\<forall>p q s t. jwt_sign E p (JWT_REFRESH_SECRET E) (JWT_REFRESH_EXPIRY E) s
                       = jwt_sign E q (JWT_REFRESH_SECRET E) (JWT_REFRESH_EXPIRY E) t
                     \<longrightarrow> s = t"
    and "presented = generateRefreshToken E payload issued"
    and "clock_seconds issued < clock_seconds now"
    and "distinct (map token (refreshTokens d))"
    and "refresh E d (Some presented) now = (r, d1)" and "status r = 200"
    and "list_all (\<lambda>(call, t). now \<le> t) calls"
  shows "refresh E (serve_calls E d1 calls) (Some presented) later
           = (error_response 401 ''Unauthorized'' ''Invalid or expired refresh token'' None later,
              serve_calls E d1 calls)"
proof -
  have other: "generateRefreshToken E p t \<noteq> presented" if "now \<le> t" for p t
  proof
    assume "generateRefreshToken E p t = presented"
    with assms(1,2) have "clock_seconds t = clock_seconds issued"
      by (auto simp: generateRefreshToken_def)
    moreover have "clock_seconds now \<le> clock_seconds t"
      using that by (simp add: clock_seconds_def zdiv_mono1)
    ultimately show False
      using assms(3) by simp
  qed
  from rotation_removes [OF assms(4,5,6)] other
  have gone: "find (\<lambda>r. token r = presented) (refreshTokens d1) = None"
    and ne: "presented \<noteq> []"
    by simp_all
  have "list_all (\<lambda>(call, t). \<forall>p. generateRefreshToken E p t \<noteq> presented) calls"
    unfolding list_all_iff
  proof
    fix x assume x: "x \<in> set calls"
    obtain call t where ct: "x = (call, t)" by (cases x)
    from assms(7) x have "now \<le> t" by (auto simp: list_all_iff ct)
    then show "case x of (call, t) \<Rightarrow> \<forall>p. generateRefreshToken E p t \<noteq> presented"
      using other by (simp add: ct)
  qed
  from serve_calls_keep_absent [OF gone this]
  have "find (\<lambda>r. token r = presented) (refreshTokens (serve_calls E d1 calls)) = None" .
  from refresh_absent [OF this ne] show ?thesis
    by (simp add: invalid_refresh_token_def)
qed

text \<open>The stand-in \<open>jwt.sign\<close> writes the issue second into the token.\<close>

lemma toString_digits_or_sign: "c \<in> set (toString (Some i)) \<Longrightarrow> is_digit c \<or> c = CHR ''-''"
  using nat_toString_digits [of "nat i"] nat_toString_digits [of "nat (- i)"]
  by (auto simp: toString_def list_all_iff split: if_splits)

lemma toString_no_bar: "CHR ''|'' \<notin> set (toString (Some i))"
  using toString_digits_or_sign [of "CHR ''|''" i] by (auto simp: is_digit_def)

lemma nat_toString_inj: "nat_toString m = nat_toString n \<Longrightarrow> m = n"
  by (metis digits_value_nat_toString)

lemma toString_inj: "toString (Some i) = toString (Some j) \<Longrightarrow> i = j"
proof -
  assume eq: "toString (Some i) = toString (Some j)"
  have nd: "nat_toString n \<noteq> CHR ''-'' # x" for n x
  proof
    assume "nat_toString n = CHR ''-'' # x"
    with nat_toString_digits [of n] have "is_digit CHR ''-''" by simp
    then show False by (simp add: is_digit_def)
  qed
  show "i = j"
  proof (cases "i < 0"; cases "j < 0")
    assume "i < 0" "j < 0"
    with eq have "nat (- i) = nat (- j)"
      by (auto simp: toString_def dest: nat_toString_inj)
    with \<open>i < 0\<close> \<open>j < 0\<close> show ?thesis by simp
  next
    assume "i < 0" "\<not> j < 0"
    with eq nd [of "nat j" "nat_toString (nat (- i))"] show ?thesis
      by (simp add: toString_def)
  next
    assume "\<not> i < 0" "j < 0"
    with eq nd [of "nat i" "nat_toString (nat (- j))"] show ?thesis
      by (simp add: toString_def)
  next
    assume "\<not> i < 0" "\<not> j < 0"
    with eq have "nat i = nat j"
      by (auto simp: toString_def dest: nat_toString_inj)
    with \<open>\<not> i < 0\<close> \<open>\<not> j < 0\<close> show ?thesis by simp
  qed
qed

lemma last_field:
  assumes "a @ CHR ''|'' # x = b @ CHR ''|'' # y"
    and "CHR ''|'' \<notin> set x" and "CHR ''|'' \<notin> set y"
  shows "x = y"
proof -
  have cut: "takeWhile (\<lambda>c. c \<noteq> CHR ''|'') (rev (u @ CHR ''|'' # z)) = rev z"
    if "CHR ''|'' \<notin> set z" for u z
  proof -
    have "takeWhile (\<lambda>c. c \<noteq> CHR ''|'') (rev z @ CHR ''|'' # rev u)
            = rev z @ takeWhile (\<lambda>c. c \<noteq> CHR ''|'') (CHR ''|'' # rev u)"
      using that by (intro takeWhile_append2) auto
    then show ?thesis by simp
  qed
  have "rev x = takeWhile (\<lambda>c. c \<noteq> CHR ''|'') (rev (a @ CHR ''|'' # x))"
    using cut [OF assms(2)] by simp
  also have "\<dots> = takeWhile (\<lambda>c. c \<noteq> CHR ''|'') (rev (b @ CHR ''|'' # y))"
    by (simp only: assms(1))
  also have "\<dots> = rev y"
    using cut [OF assms(3)] by simp
  finally show ?thesis by simp
qed

lemma example_sign_second:
  assumes "example_sign p secret expiresIn s = example_sign q secret expiresIn t"
  shows "s = t"
proof -
  let ?e = "expiry_seconds expiresIn"
  from assms
  have "(secret @ ''|'' @ userId p @ ''|'' @ payload_email p @ ''|'' @ payload_role p @ ''|''
           @ toString (Some s)) @ CHR ''|'' # toString (Some (s + ?e))
        = (secret @ ''|'' @ userId q @ ''|'' @ payload_email q @ ''|'' @ payload_role q @ ''|''
           @ toString (Some t)) @ CHR ''|'' # toString (Some (t + ?e))"
    by (simp add: example_sign_def)
  from last_field [OF this toString_no_bar toString_no_bar]
  have "s + ?e = t + ?e" by (rule toString_inj)
  then show ?thesis by simp
qed

theorem rotated_token_is_rejected_witness:
  "status (fst (refresh example_env alice_db (Some alice_token) 1500)) = 200
   \<and> refresh example_env
       (serve_calls example_env (snd (refresh example_env alice_db (Some alice_token) 1500))
          later_calls)
       (Some alice_token) 4000
     = (error_response 401 ''Unauthorized'' ''Invalid or expired refresh token'' None 4000,
        serve_calls example_env (snd (refresh example_env alice_db (Some alice_token) 1500))
          later_calls)"
proof -
  let ?r = "fst (refresh example_env alice_db (Some alice_token) 1500)"
  let ?d1 = "snd (refresh example_env alice_db (Some alice_token) 1500)"
  have first: "refresh example_env alice_db (Some alice_token) 1500
      = (success_response 200
           (auth_payload alice_user (generateAccessToken example_env alice_payload 1500)
              (generateRefreshToken example_env alice_payload 1500)) 1500,
         session_db (new_id alice_db) (generateRefreshToken example_env alice_payload 1500)
           (1500 + seven_days) 4)"
    unfolding alice_db_def
    by (subst refresh_session) (simp_all add: clock_seconds_def)
  have ok: "status ?r = 200"
    by (simp add: first success_response_def)
  have dist: "distinct (map token (refreshTokens alice_db))"
    by (simp add: alice_db_def session_db_def)
  have pair: "refresh example_env alice_db (Some alice_token) 1500 = (?r, ?d1)"
    by simp
  have sign: "\<forall>p q s t. jwt_sign example_env p (JWT_REFRESH_SECRET example_env)
                             (JWT_REFRESH_EXPIRY example_env) s
                         = jwt_sign example_env q (JWT_REFRESH_SECRET example_env)
                             (JWT_REFRESH_EXPIRY example_env) t
                       \<longrightarrow> s = t"
    by (auto simp: example_env_def dest: example_sign_second)
  have issued: "alice_token = generateRefreshToken example_env alice_payload 0"
    by (simp add: sign_refresh_second_0 clock_seconds_def)
  have later: "clock_seconds 0 < clock_seconds 1500"
    by (simp add: clock_seconds_def)
  have times: "list_all (\<lambda>(call, t). 1500 \<le> t) later_calls"
    by (simp add: later_calls_def)
  from rotated_token_is_rejected [OF sign issued later dist pair ok times, of 4000] ok
  show ?thesis by simp
qed

section \<open>Steps of a refresh call\<close>

lemma step_pending:
  assumes "T \<noteq> []" and "verifyRefreshToken E T t \<noteq> None"
  shows "step E t d (Pending (Some T)) = (Verified T, d)"
  using assms by (auto simp: step_def refresh_verify_def)

lemma step_pending_cases:
  assumes "T \<noteq> []"
  shows "step E t d (Pending (Some T)) = (Verified T, d)
       \<or> step E t d (Pending (Some T)) = (Done (invalid_refresh_token t), d)"
  using assms by (auto simp: step_def refresh_verify_def split: option.splits)

lemma step_verified_present:
  assumes "find (\<lambda>r. token r = T) (refreshTokens d) = Some r0"
    and "find (\<lambda>x. user_id x = token_userId r0) (users d) = Some u"
    and "t \<le> expiresAt r0"
  shows "step E t d (Verified T)
           = (Found \<lparr>storedToken = r0, owner = u,
                     newAccessToken = generateAccessToken E (token_payload u) t,
                     newRefreshToken = generateRefreshToken E (token_payload u) t\<rparr>, d)"
  using assms
  by (auto simp: step_def refresh_lookup_def refreshToken_findUnique_def)

lemma step_verified_absent:
  assumes "find (\<lambda>r. token r = T) (refreshTokens d) = None"
  shows "step E t d (Verified T) = (Done (invalid_refresh_token t), d)"
  using assms by (simp add: step_def refresh_lookup_absent)

lemma step_found_present:
  assumes "find (\<lambda>r. token_id r = token_id (storedToken rot)) (refreshTokens d) \<noteq> None"
  shows "step E t d (Found rot) = (Deleted rot (t + seven_days), deleted_db d (storedToken rot))"
  using assms by (simp add: step_def refresh_delete_def refreshToken_delete_def deleted_db_def)

lemma step_found_lenient:
  assumes "\<not> prisma_delete_raises E"
  shows "step E t d (Found rot) = (Deleted rot (t + seven_days), deleted_db d (storedToken rot))"
  using assms by (simp add: step_def refresh_delete_def refreshToken_delete_def deleted_db_def)

lemma step_found_absent:
  assumes "prisma_delete_raises E"
    and "find (\<lambda>r. token_id r = token_id (storedToken rot)) (refreshTokens d) = None"
  shows "step E t d (Found rot)
           = (Done (internal_error ''Failed to refresh token'' (error_message RecordNotFound) t), d)"
  using assms by (simp add: step_def refresh_delete_def refreshToken_delete_def)

lemma step_deleted:
  assumes "find (\<lambda>r. token r = newRefreshToken rot) (refreshTokens d) = None"
  shows "step E t d (Deleted rot expires)
           = (Done (success_response 200
                      (auth_payload (owner rot) (newAccessToken rot) (newRefreshToken rot)) t),
              d\<lparr>refreshTokens := refreshTokens d
                   @ [\<lparr>token_id = new_id d, token = newRefreshToken rot,
                       token_userId = user_id (owner rot), expiresAt = expires\<rparr>],
                 next_id := Suc (next_id d)\<rparr>)"
  using assms by (simp add: step_def refresh_create_def refreshToken_create_def)

lemma step_done: "step E t d (Done r) = (Done r, d)"
  by (simp add: step_def)

lemma lost_simps:
  "rejected_at_lookup (Done (invalid_refresh_token t))"
  "failed_at_delete (Done (internal_error ''Failed to refresh token'' (error_message RecordNotFound) t))"
  "lost (Done (invalid_refresh_token t))"
  "lost (Done (internal_error ''Failed to refresh token'' (error_message RecordNotFound) t))"
  "\<not> lost (Pending input)" "\<not> lost (Verified presented)" "\<not> lost (Found rot)"
  "\<not> lost (Deleted rot expires)"
  by (simp_all add: lost_def rejected_at_lookup_def failed_at_delete_def
      invalid_refresh_token_def internal_error_def error_response_def error_message_def)

lemma status_of_error:
  "r = error_response code lbl msg det (timestamp (body r)) \<Longrightarrow> status r = code"
proof -
  assume r: "r = error_response code lbl msg det (timestamp (body r))"
  have "status (error_response code lbl msg det (timestamp (body r))) = code"
    by (simp add: error_response_def)
  with r show ?thesis by metis
qed

lemma lost_status:
  "rejected_at_lookup c \<Longrightarrow> answered c = Some 401"
  "failed_at_delete c \<Longrightarrow> answered c = Some 500"
proof -
  show "rejected_at_lookup c \<Longrightarrow> answered c = Some 401"
    by (cases c) (auto simp: rejected_at_lookup_def answered_def dest: status_of_error)
  show "failed_at_delete c \<Longrightarrow> answered c = Some 500"
    by (cases c) (auto simp: failed_at_delete_def answered_def dest: status_of_error)
qed

lemma rotated_status:
  assumes "rotated u new_access new_refresh c"
  shows "answered c = Some 200"
proof -
  from assms obtain r where c: "c = Done r"
    and r: "r = success_response 200 (auth_payload u new_access new_refresh) (timestamp (body r))"
    by (cases c) (simp_all add: rotated_def)
  have "status (success_response 200 (auth_payload u new_access new_refresh) (timestamp (body r)))
          = 200"
    by (simp add: success_response_def)
  with r have "status r = 200" by metis
  then show ?thesis by (simp add: c answered_def)
qed

text \<open>Once the record is gone, every other call loses, and the store stays as it is.\<close>

lemma step_loses:
  assumes "prisma_delete_raises E" and "T \<noteq> []"
    and "find (\<lambda>r. token r = T) (refreshTokens d') = None"
    and "find (\<lambda>r. token_id r = token_id r0) (refreshTokens d') = None"
    and "waiting T r0 u D0 c \<or> lost c"
  shows "snd (step E t d' c) = d'
       \<and> (waiting T r0 u D0 (fst (step E t d' c)) \<or> lost (fst (step E t d' c)))"
proof (cases c)
  case (Pending input)
  with assms(5) have "input = Some T" by (simp add: waiting_def lost_simps)
  with Pending step_pending_cases [OF assms(2), of E t d'] show ?thesis
    by (auto simp: lost_simps waiting_def)
next
  case (Verified presented)
  with assms(5) have "presented = T" by (simp add: waiting_def lost_simps)
  with Verified assms(3) show ?thesis
    by (simp add: step_verified_absent lost_simps)
next
  case (Found rot)
  with assms(5) have "storedToken rot = r0"
    by (simp add: waiting_def fresh_rotation_def lost_simps)
  with Found assms(1,4) show ?thesis
    by (simp add: step_found_absent lost_simps)
next
  case (Deleted rot expires)
  with assms(5) show ?thesis by (simp add: waiting_def lost_simps)
next
  case (Done r)
  with assms(5) show ?thesis by (simp add: step_done waiting_def)
qed

text \<open>
  A call that has found the record stays on that side, whatever the store does; a call
  that has not looked the record up yet can only be rejected once the token is gone.
\<close>

lemma found_step: "found_record c \<Longrightarrow> found_record (fst (step E t d c))"
  by (cases c)
    (auto simp: found_record_def step_def refresh_delete_def refresh_create_def
      internal_error_def error_response_def success_response_def
      split: sum.splits prod.splits)

lemma late_step:
  assumes "T \<noteq> []" and "find (\<lambda>r. token r = T) (refreshTokens d) = None"
    and "awaiting_lookup T c \<or> rejected_at_lookup c"
  shows "awaiting_lookup T (fst (step E t d c)) \<or> rejected_at_lookup (fst (step E t d c))"
proof (cases c)
  case (Pending input)
  with assms(3) have "input = Some T"
    by (simp add: awaiting_lookup_def rejected_at_lookup_def)
  with Pending step_pending_cases [OF assms(1), of E t d] show ?thesis
    by (auto simp: awaiting_lookup_def lost_simps)
next
  case (Verified presented)
  with assms(3) have "presented = T"
    by (simp add: awaiting_lookup_def rejected_at_lookup_def)
  with Verified assms(2) show ?thesis
    by (simp add: step_verified_absent lost_simps)
next
  case (Found rot)
  with assms(3) show ?thesis by (simp add: awaiting_lookup_def rejected_at_lookup_def)
next
  case (Deleted rot expires)
  with assms(3) show ?thesis by (simp add: awaiting_lookup_def rejected_at_lookup_def)
next
  case (Done r)
  with assms(3) show ?thesis by (simp add: step_done)
qed

section \<open>The invariant of concurrent rotation\<close>

lemma find_id_deleted:
  "find (\<lambda>r. token_id r = token_id r0) (filter (\<lambda>r. token_id r \<noteq> token_id r0) rs) = None"
  by (induction rs) auto

lemma deleted_db_simps:
  "refreshTokens (deleted_db d r0) = filter (\<lambda>r. token_id r \<noteq> token_id r0) (refreshTokens d)"
  "users (deleted_db d r0) = users d" "new_id (deleted_db d r0) = new_id d"
  "next_id (deleted_db d r0) = next_id d"
  by (simp_all add: deleted_db_def new_id_def)

lemma before_step:
  assumes S: "rotation_setting E d T r0 u" and U: "usable_at E d T r0 u t"
    and i: "i < length calls" and B: "before_rotation d T r0 u (d', calls)"
  shows "rotation_invariant d T r0 u
           (snd (step E t d' (calls ! i)), calls[i := fst (step E t d' (calls ! i))])"
proof -
  from B have d': "d' = d" and W: "\<And>j. j < length calls \<Longrightarrow> waiting T r0 u (refreshTokens d) (calls ! j)"
    by (simp_all add: before_rotation_def)
  from S have T: "T \<noteq> []" and st: "find (\<lambda>r. token r = T) (refreshTokens d) = Some r0"
    and ow: "find (\<lambda>x. user_id x = token_userId r0) (users d) = Some u"
    by (simp_all add: rotation_setting_def)
  from U have v: "verifyRefreshToken E T t \<noteq> None" and e: "t \<le> expiresAt r0"
    and f: "find (\<lambda>r. token r = generateRefreshToken E (token_payload u) t) (refreshTokens d) = None"
    by (simp_all add: usable_at_def)
  show ?thesis
  proof (cases "calls ! i")
    case (Pending input)
    with W [OF i] have input: "input = Some T" by (simp add: waiting_def)
    have stp: "step E t d' (calls ! i) = (Verified T, d)"
      unfolding Pending input d' using T v by (rule step_pending)
    have "waiting T r0 u (refreshTokens d) (Verified T)"
      by (simp add: waiting_def)
    then have "before_rotation d T r0 u (d, calls[i := Verified T])"
      using W i by (auto simp: before_rotation_def nth_list_update)
    then show ?thesis
      by (simp add: stp rotation_invariant_def)
  next
    case (Verified presented)
    with W [OF i] have presented: "presented = T" by (simp add: waiting_def)
    let ?rot = "\<lparr>storedToken = r0, owner = u,
                  newAccessToken = generateAccessToken E (token_payload u) t,
                  newRefreshToken = generateRefreshToken E (token_payload u) t\<rparr>"
    have stp: "step E t d' (calls ! i) = (Found ?rot, d)"
      unfolding Verified presented d' using st ow e by (rule step_verified_present)
    have "waiting T r0 u (refreshTokens d) (Found ?rot)"
      using f by (simp add: waiting_def fresh_rotation_def)
    then have "before_rotation d T r0 u (d, calls[i := Found ?rot])"
      using W i by (auto simp: before_rotation_def nth_list_update)
    then show ?thesis
      by (simp add: stp rotation_invariant_def)
  next
    case (Found rot)
    with W [OF i] have fr: "fresh_rotation r0 u (refreshTokens d) rot" by (simp add: waiting_def)
    then have sr: "storedToken rot = r0" by (simp add: fresh_rotation_def)
    have "r0 \<in> set (refreshTokens d)" using st by (rule find_Some_mem)
    then have "find (\<lambda>r. token_id r = token_id (storedToken rot)) (refreshTokens d') \<noteq> None"
      unfolding sr d' by (auto simp: find_None_iff)
    then have stp: "step E t d' (calls ! i) = (Deleted rot (t + seven_days), deleted_db d r0)"
      unfolding Found using step_found_present [of rot d' E t] by (simp add: sr d')
    have "during_rotation d T r0 u (deleted_db d r0, calls[i := Deleted rot (t + seven_days)])"
      unfolding during_rotation_def using i fr W
      by (auto simp: nth_list_update intro!: exI [of _ i])
    then show ?thesis
      by (simp add: stp rotation_invariant_def rotating_def)
  next
    case (Deleted rot expires)
    with W [OF i] show ?thesis by (simp add: waiting_def)
  next
    case (Done r)
    with W [OF i] show ?thesis by (simp add: waiting_def)
  qed
qed

lemma absent_after_delete:
  assumes S: "rotation_setting E d T r0 u"
  shows "find (\<lambda>r. token r = T) (refreshTokens (deleted_db d r0)) = None"
    and "find (\<lambda>r. token_id r = token_id r0) (refreshTokens (deleted_db d r0)) = None"
proof -
  from S have st: "find (\<lambda>r. token r = T) (refreshTokens d) = Some r0"
    and dist: "distinct (map token (refreshTokens d))"
    by (simp_all add: rotation_setting_def)
  show "find (\<lambda>r. token r = T) (refreshTokens (deleted_db d r0)) = None"
    using find_after_delete [OF dist st] by (simp add: deleted_db_simps)
  show "find (\<lambda>r. token_id r = token_id r0) (refreshTokens (deleted_db d r0)) = None"
    by (simp add: deleted_db_simps find_id_deleted)
qed

lemma absent_after_rotation:
  assumes S: "rotation_setting E d T r0 u"
    and fr: "fresh_rotation r0 u (refreshTokens d) rot"
  shows "find (\<lambda>r. token r = T)
           (refreshTokens (rotated_db d r0 (newRefreshToken rot) uid expires)) = None"
    and "find (\<lambda>r. token_id r = token_id r0)
           (refreshTokens (rotated_db d r0 (newRefreshToken rot) uid expires)) = None"
proof -
  from S have st: "find (\<lambda>r. token r = T) (refreshTokens d) = Some r0"
    and idn: "token_id r0 \<noteq> new_id d"
    by (simp_all add: rotation_setting_def)
  from fr have "find (\<lambda>r. token r = newRefreshToken rot) (refreshTokens d) = None"
    by (simp add: fresh_rotation_def)
  with st have neq: "newRefreshToken rot \<noteq> T" by auto
  note gone = absent_after_delete [OF S, unfolded deleted_db_simps]
  show "find (\<lambda>r. token r = T)
           (refreshTokens (rotated_db d r0 (newRefreshToken rot) uid expires)) = None"
    using gone(1) neq by (simp add: rotated_db_def find_snoc)
  show "find (\<lambda>r. token_id r = token_id r0)
           (refreshTokens (rotated_db d r0 (newRefreshToken rot) uid expires)) = None"
    using gone(2) idn by (simp add: rotated_db_def find_snoc)
qed

lemma during_step:
  assumes S: "rotation_setting E d T r0 u"
    and i: "i < length calls" and D: "during_rotation d T r0 u (d', calls)"
  shows "rotating d T r0 u
           (snd (step E t d' (calls ! i)), calls[i := fst (step E t d' (calls ! i))])"
proof -
  from D obtain k rot expires where d': "d' = deleted_db d r0" and k: "k < length calls"
    and ck: "calls ! k = Deleted rot expires" and fr: "fresh_rotation r0 u (refreshTokens d) rot"
    and O: "\<And>j. j < length calls \<Longrightarrow> j \<noteq> k \<Longrightarrow>
              waiting T r0 u (refreshTokens d) (calls ! j) \<or> lost (calls ! j)"
    by (auto simp: during_rotation_def)
  from S have strict: "prisma_delete_raises E" and T: "T \<noteq> []"
    by (simp_all add: rotation_setting_def)
  note gone = absent_after_delete [OF S]
  show ?thesis
  proof (cases "i = k")
    case True
    from fr have nf: "find (\<lambda>r. token r = newRefreshToken rot) (refreshTokens d) = None"
      and ow: "owner rot = u"
      by (simp_all add: fresh_rotation_def)
    then have nf': "find (\<lambda>r. token r = newRefreshToken rot) (refreshTokens d') = None"
      unfolding d' by (simp add: deleted_db_simps find_filter_None)
    let ?r = "success_response 200
                (auth_payload (owner rot) (newAccessToken rot) (newRefreshToken rot)) t"
    have stp: "step E t d' (calls ! i)
        = (Done ?r, rotated_db d r0 (newRefreshToken rot) (user_id u) expires)"
      unfolding True ck using step_deleted [OF nf', of E t expires]
      by (simp add: d' rotated_db_def deleted_db_def new_id_def ow)
    have win: "rotated u (newAccessToken rot) (newRefreshToken rot) (Done ?r)"
      by (simp add: rotated_def success_response_def ow)
    have "after_rotation d T r0 u
            (rotated_db d r0 (newRefreshToken rot) (user_id u) expires, calls[i := Done ?r])"
      unfolding after_rotation_def using win fr k O True i
      by (auto simp: nth_list_update intro!: exI [of _ k] exI [of _ rot] exI [of _ expires])
    then show ?thesis
      by (simp add: stp rotating_def)
  next
    case False
    from step_loses [OF strict T, of d' r0 u "refreshTokens d" "calls ! i" t] gone O [OF i False]
    have same: "snd (step E t d' (calls ! i)) = d'"
      and l: "waiting T r0 u (refreshTokens d) (fst (step E t d' (calls ! i)))
              \<or> lost (fst (step E t d' (calls ! i)))"
      by (simp_all add: d')
    have "during_rotation d T r0 u (d', calls[i := fst (step E t d' (calls ! i))])"
      unfolding during_rotation_def using d' k ck fr O l False i
      by (auto simp: nth_list_update intro!: exI [of _ k])
    then show ?thesis
      by (simp add: same rotating_def)
  qed
qed

lemma after_step:
  assumes S: "rotation_setting E d T r0 u"
    and i: "i < length calls" and A: "after_rotation d T r0 u (d', calls)"
  shows "rotating d T r0 u
           (snd (step E t d' (calls ! i)), calls[i := fst (step E t d' (calls ! i))])"
proof -
  from A obtain k rot expires where fr: "fresh_rotation r0 u (refreshTokens d) rot"
    and k: "k < length calls"
    and ck: "rotated u (newAccessToken rot) (newRefreshToken rot) (calls ! k)"
    and d': "d' = rotated_db d r0 (newRefreshToken rot) (user_id u) expires"
    and O: "\<And>j. j < length calls \<Longrightarrow> j \<noteq> k \<Longrightarrow>
              waiting T r0 u (refreshTokens d) (calls ! j) \<or> lost (calls ! j)"
    by (auto simp: after_rotation_def)
  from S have strict: "prisma_delete_raises E" and T: "T \<noteq> []"
    by (simp_all add: rotation_setting_def)
  note gone = absent_after_rotation [OF S fr, of "user_id u" expires, folded d']
  show ?thesis
  proof (cases "i = k")
    case True
    from ck obtain r where "calls ! k = Done r"
      by (cases "calls ! k") (simp_all add: rotated_def)
    then have "step E t d' (calls ! i) = (calls ! i, d')"
      by (simp add: True step_done)
    with A show ?thesis
      by (simp add: rotating_def)
  next
    case False
    from step_loses [OF strict T gone O [OF i False], of t]
    have same: "snd (step E t d' (calls ! i)) = d'"
      and l: "waiting T r0 u (refreshTokens d) (fst (step E t d' (calls ! i)))
              \<or> lost (fst (step E t d' (calls ! i)))"
      by simp_all
    have "after_rotation d T r0 u (d', calls[i := fst (step E t d' (calls ! i))])"
      unfolding after_rotation_def using fr k ck d' O l False i
      by (auto simp: nth_list_update intro!: exI [of _ k] exI [of _ rot] exI [of _ expires])
    then show ?thesis
      by (simp add: same rotating_def)
  qed
qed

lemma rotating_absent:
  assumes S: "rotation_setting E d T r0 u" and R: "rotating d T r0 u (d', calls)"
  shows "find (\<lambda>r. token r = T) (refreshTokens d') = None"
  using R absent_after_delete(1) [OF S] absent_after_rotation(1) [OF S]
  by (auto simp: rotating_def during_rotation_def after_rotation_def)

lemma length_run: "length (snd (run E (d, calls) schedule)) = length calls"
proof (induction schedule arbitrary: d calls)
  case Nil
  then show ?case by simp
next
  case (Cons x schedule)
  obtain i t where x: "x = (i, t)" by (cases x)
  show ?case
    using Cons.IH by (simp add: x case_prod_beta)
qed

lemma run_append: "run E cfg (s1 @ s2) = run E (run E cfg s1) s2"
proof (induction s1 arbitrary: cfg)
  case Nil
  then show ?case by simp
next
  case (Cons x s1)
  obtain i t where x: "x = (i, t)" by (cases x)
  obtain d calls where cfg: "cfg = (d, calls)" by (cases cfg)
  show ?case
    using Cons.IH by (simp add: x cfg case_prod_beta)
qed

lemma invariant_run:
  assumes S: "rotation_setting E d T r0 u"
    and U: "list_all (\<lambda>(i, t). usable_at E d T r0 u t) schedule"
    and I: "rotation_invariant d T r0 u (d', calls)"
  shows "rotation_invariant d T r0 u (run E (d', calls) schedule)"
  using U I
proof (induction schedule arbitrary: d' calls)
  case Nil
  then show ?case by simp
next
  case (Cons x schedule)
  obtain i t where x: "x = (i, t)" by (cases x)
  from Cons.prems(1) have Ut: "usable_at E d T r0 u t"
    and Us: "list_all (\<lambda>(i, t). usable_at E d T r0 u t) schedule"
    by (simp_all add: x)
  show ?case
  proof (cases "i < length calls")
    case True
    let ?cfg = "(snd (step E t d' (calls ! i)), calls[i := fst (step E t d' (calls ! i))])"
    have "rotation_invariant d T r0 u ?cfg"
      using Cons.prems(2) before_step [OF S Ut True] during_step [OF S True] after_step [OF S True]
      unfolding rotation_invariant_def [of d T r0 u "(d', calls)"] rotating_def [of d T r0 u "(d', calls)"]
      by (auto simp: rotation_invariant_def)
    from Cons.IH [OF Us this] True show ?thesis
      by (simp add: x case_prod_beta)
  next
    case False
    with Cons.IH [OF Us Cons.prems(2)] show ?thesis
      by (simp add: x)
  qed
qed

lemma late_run:
  assumes S: "rotation_setting E d T r0 u"
    and R: "rotating d T r0 u (d', calls)"
    and j: "j < length calls"
    and L: "awaiting_lookup T (calls ! j) \<or> rejected_at_lookup (calls ! j)"
  shows "awaiting_lookup T (snd (run E (d', calls) schedule) ! j)
       \<or> rejected_at_lookup (snd (run E (d', calls) schedule) ! j)"
  using R j L
proof (induction schedule arbitrary: d' calls)
  case Nil
  then show ?case by simp
next
  case (Cons x schedule)
  obtain i t where x: "x = (i, t)" by (cases x)
  from S have T: "T \<noteq> []" by (simp add: rotation_setting_def)
  show ?case
  proof (cases "i < length calls")
    case True
    let ?c = "fst (step E t d' (calls ! i))"
    let ?cfg = "(snd (step E t d' (calls ! i)), calls[i := ?c])"
    have R': "rotating d T r0 u ?cfg"
      using Cons.prems(1) during_step [OF S True] after_step [OF S True]
      unfolding rotating_def [of d T r0 u "(d', calls)"] by blast
    have gone: "find (\<lambda>r. token r = T) (refreshTokens d') = None"
      using rotating_absent [OF S Cons.prems(1)] .
    have L': "awaiting_lookup T (calls[i := ?c] ! j) \<or> rejected_at_lookup (calls[i := ?c] ! j)"
    proof (cases "i = j")
      case True
      with late_step [OF T gone, of "calls ! j" E t] Cons.prems(2,3) show ?thesis
        by simp
    next
      case False
      with Cons.prems(3) show ?thesis by simp
    qed
    from Cons.IH [OF R' _ L'] Cons.prems(2) True show ?thesis
      by (simp add: x case_prod_beta)
  next
    case False
    with Cons.IH [OF Cons.prems] show ?thesis
      by (simp add: x)
  qed
qed

lemma found_run:
  assumes "j < length calls" and "found_record (calls ! j)"
  shows "found_record (snd (run E (d', calls) schedule) ! j)"
  using assms
proof (induction schedule arbitrary: d' calls)
  case Nil
  then show ?case by simp
next
  case (Cons x schedule)
  obtain i t where x: "x = (i, t)" by (cases x)
  show ?case
  proof (cases "i < length calls")
    case True
    let ?c = "fst (step E t d' (calls ! i))"
    have "found_record (calls[i := ?c] ! j)"
      using Cons.prems found_step [of "calls ! j" E t d'] by (cases "i = j") simp_all
    from Cons.IH [OF _ this] Cons.prems(1) True show ?thesis
      by (simp add: x case_prod_beta)
  next
    case False
    with Cons.IH [OF Cons.prems] show ?thesis
      by (simp add: x)
  qed
qed

text \<open>
  Claim C1, amended. Take a store whose \<open>delete\<close> raises on a missing record, a refresh
  token stored once in it, and any number of refresh calls presenting that token,
  interleaved at their \<open>await\<close>s in any order, at clock readings at which the token
  verifies, is not expired, and the newly minted refresh token is not in the store. When
  all calls have answered:
  \<^item> exactly one call has succeeded: it is answered 200 with a new pair of tokens, and
    the store it leaves is the initial store with the old record deleted and one record
    inserted, for the new refresh token; the presented token is no longer stored;
  \<^item> every other call has failed, with the 401 \<open>Invalid or expired refresh token\<close> or
    with the 500 \<open>Record to delete does not exist\<close>;
  \<^item> which of the two is decided by the order of the steps: a call that, at some point
    of the run, had found the record (its lookup ran before the winner's \<open>delete\<close>) is
    answered 500 by its own \<open>delete\<close>; a call that, at some point of the run where the
    record was already deleted, had not yet looked it up is answered 401.
\<close>

theorem concurrent_refresh_single_winner:
  assumes "rotation_setting E d presented stored u"
    and "list_all (\<lambda>(i, t). usable_at E d presented stored u t) schedule"
    and "0 < n"
    and "run E (d, replicate n (Pending (Some presented))) schedule = (d', calls)"
    and "list_all (\<lambda>c. answered c \<noteq> None) calls"
  shows "\<exists>k < n. \<exists>new_access new_refresh expires.
           rotated u new_access new_refresh (calls ! k) \<and> answered (calls ! k) = Some 200
         \<and> refreshTokens d'
             = filter (\<lambda>r. token_id r \<noteq> token_id stored) (refreshTokens d)
               @ [\<lparr>token_id = new_id d, token = new_refresh, token_userId = user_id u,
                   expiresAt = expires\<rparr>]
         \<and> users d' = users d
         \<and> find (\<lambda>r. token r = presented) (refreshTokens d') = None
         \<and> (\<forall>j < n. j \<noteq> k \<longrightarrow>
               (rejected_at_lookup (calls ! j) \<and> answered (calls ! j) = Some 401)
             \<or> (failed_at_delete (calls ! j) \<and> answered (calls ! j) = Some 500))
         \<and> (\<forall>s1 s2 dm cm j. schedule = s1 @ s2
               \<and> run E (d, replicate n (Pending (Some presented))) s1 = (dm, cm)
               \<and> j < n \<and> j \<noteq> k \<longrightarrow>
               ((\<exists>rot. cm ! j = Found rot) \<longrightarrow> failed_at_delete (calls ! j))
             \<and> (awaiting_lookup presented (cm ! j)
                  \<and> find (\<lambda>r. token r = presented) (refreshTokens dm) = None
                \<longrightarrow> rejected_at_lookup (calls ! j)))"
proof -
  let ?start = "(d, replicate n (Pending (Some presented)))"
  have B: "before_rotation d presented stored u ?start"
    by (simp add: before_rotation_def waiting_def)
  then have I0: "rotation_invariant d presented stored u ?start"
    by (simp add: rotation_invariant_def)
  from invariant_run [OF assms(1,2) I0] assms(4)
  have I: "rotation_invariant d presented stored u (d', calls)"
    by simp
  have len: "length calls = n"
    using length_run [of E d "replicate n (Pending (Some presented))" schedule] assms(4) by simp
  from assms(5) have all: "\<And>j. j < n \<Longrightarrow> answered (calls ! j) \<noteq> None"
    using len by (simp add: list_all_length)
  have nw: "\<not> waiting presented stored u (refreshTokens d) (calls ! j)" if "j < n" for j
    using all [OF that] by (cases "calls ! j") (simp_all add: waiting_def answered_def)
  have not_before: "\<not> before_rotation d presented stored u (d', calls)"
    using nw [OF assms(3)] assms(3) len by (auto simp: before_rotation_def)
  have not_during: "\<not> during_rotation d presented stored u (d', calls)"
  proof
    assume "during_rotation d presented stored u (d', calls)"
    then obtain k rot expires where "k < n" and "calls ! k = Deleted rot expires"
      using len by (auto simp: during_rotation_def)
    with all [of k] show False by (simp add: answered_def)
  qed
  from I not_before not_during
  have "after_rotation d presented stored u (d', calls)"
    by (simp add: rotation_invariant_def rotating_def)
  then obtain k rot expires where k: "k < n"
    and fr: "fresh_rotation stored u (refreshTokens d) rot"
    and w: "rotated u (newAccessToken rot) (newRefreshToken rot) (calls ! k)"
    and d': "d' = rotated_db d stored (newRefreshToken rot) (user_id u) expires"
    and O: "\<And>j. j < n \<Longrightarrow> j \<noteq> k \<Longrightarrow>
              waiting presented stored u (refreshTokens d) (calls ! j) \<or> lost (calls ! j)"
    using len by (auto simp: after_rotation_def)
  have w200: "answered (calls ! k) = Some 200"
    using w by (rule rotated_status)
  have store: "refreshTokens d'
             = filter (\<lambda>r. token_id r \<noteq> token_id stored) (refreshTokens d)
               @ [\<lparr>token_id = new_id d, token = newRefreshToken rot, token_userId = user_id u,
                   expiresAt = expires\<rparr>]"
    and us: "users d' = users d"
    by (simp_all add: d' rotated_db_def)
  have gone: "find (\<lambda>r. token r = presented) (refreshTokens d') = None"
    unfolding d' by (rule absent_after_rotation(1) [OF assms(1) fr])
  have L: "lost (calls ! j)" if "j < n" "j \<noteq> k" for j
    using O [OF that] nw [OF that(1)] by simp
  have others: "(rejected_at_lookup (calls ! j) \<and> answered (calls ! j) = Some 401)
             \<or> (failed_at_delete (calls ! j) \<and> answered (calls ! j) = Some 500)"
    if "j < n" "j \<noteq> k" for j
    using L [OF that] lost_status [of "calls ! j"] by (auto simp: lost_def)
  have order: "((\<exists>rot. cm ! j = Found rot) \<longrightarrow> failed_at_delete (calls ! j))
             \<and> (awaiting_lookup presented (cm ! j)
                  \<and> find (\<lambda>r. token r = presented) (refreshTokens dm) = None
                \<longrightarrow> rejected_at_lookup (calls ! j))"
    if split: "schedule = s1 @ s2"
      and mid: "run E ?start s1 = (dm, cm)" and j: "j < n" "j \<noteq> k" for s1 s2 dm cm j
  proof -
    from assms(2) have U1: "list_all (\<lambda>(i, t). usable_at E d presented stored u t) s1"
      by (simp add: split)
    from invariant_run [OF assms(1) U1 I0] mid
    have Im: "rotation_invariant d presented stored u (dm, cm)" by simp
    have lm: "length cm = n"
      using length_run [of E d "replicate n (Pending (Some presented))" s1] mid by simp
    have fin: "run E (dm, cm) s2 = (d', calls)"
      using assms(4) run_append [of E ?start s1 s2] by (simp add: split mid)
    have a: "failed_at_delete (calls ! j)" if "cm ! j = Found rot'" for rot'
    proof -
      have "found_record (cm ! j)" using that by (simp add: found_record_def)
      from found_run [of j cm, OF _ this, of E dm s2] j(1) lm fin
      have "found_record (calls ! j)" by simp
      moreover have "\<not> found_record c" if "rejected_at_lookup c" for c
        using lost_status(1) [OF that]
        by (cases c) (auto simp: found_record_def answered_def)
      ultimately show ?thesis
        using L [OF j] by (auto simp: lost_def)
    qed
    have b: "rejected_at_lookup (calls ! j)"
      if aw: "awaiting_lookup presented (cm ! j)"
        and ab: "find (\<lambda>r. token r = presented) (refreshTokens dm) = None"
    proof -
      have "\<not> before_rotation d presented stored u (dm, cm)"
        using ab assms(1) by (auto simp: before_rotation_def rotation_setting_def)
      with Im have R: "rotating d presented stored u (dm, cm)"
        by (simp add: rotation_invariant_def)
      from late_run [OF assms(1) R, of j s2] aw j(1) lm fin
      have "awaiting_lookup presented (calls ! j) \<or> rejected_at_lookup (calls ! j)"
        by simp
      moreover have "\<not> awaiting_lookup presented (calls ! j)"
        using all [OF j(1)] by (auto simp: awaiting_lookup_def answered_def)
      ultimately show ?thesis by simp
    qed
    from a b show ?thesis by blast
  qed
  from k w w200 store us gone others order show ?thesis
    by blast
qed

section \<open>Two schedules, evaluated\<close>

lemma lenient_env_simps:
  "verifyRefreshToken lenient_env = verifyRefreshToken example_env"
  "generateRefreshToken lenient_env = generateRefreshToken example_env"
  "generateAccessToken lenient_env = generateAccessToken example_env"
  "\<not> prisma_delete_raises lenient_env" "prisma_delete_raises example_env"
  by (simp_all add: lenient_env_def example_env_def verifyRefreshToken_def
      generateRefreshToken_def generateAccessToken_def fun_eq_iff)

lemma sign_refresh_second:
  "generateRefreshToken example_env alice_payload 1000
     = ''refresh-secret|c1|alice@example.com|viewer|1|604801''"
  "generateRefreshToken example_env alice_payload 2000
     = ''refresh-secret|c1|alice@example.com|viewer|2|604802''"
  by (simp_all add: generateRefreshToken_def example_env_def example_sign_def alice_payload_def
      expiry_seconds_def clock_seconds_def string_eval)

lemma alice_db_simps:
  "refreshTokens alice_db = [alice_record]" "users alice_db = [alice_user]"
  "new_id alice_db = ''c3''"
  by (simp_all add: alice_db_def session_db_def alice_record_def new_id_def string_eval)

lemma alice_record_simps:
  "token alice_record = alice_token" "token_id alice_record = ''c2''"
  "token_userId alice_record = ''c1''" "expiresAt alice_record = 604800000"
  by (simp_all add: alice_record_def)

lemma alice_setting: "rotation_setting example_env alice_db alice_token alice_record alice_user"
  by (simp add: rotation_setting_def lenient_env_simps alice_db_simps alice_record_simps)
    (simp add: alice_token_def alice_user_def)

lemma alice_usable:
  "usable_at example_env alice_db alice_token alice_record alice_user t"
  if "clock_seconds t = 1"
proof -
  have "generateRefreshToken example_env alice_payload t
          = ''refresh-secret|c1|alice@example.com|viewer|1|604801''"
    using that
    by (simp add: generateRefreshToken_def example_env_def example_sign_def alice_payload_def
        expiry_seconds_def string_eval)
  then have fresh: "find (\<lambda>r. token r = generateRefreshToken example_env (token_payload alice_user) t)
                      (refreshTokens alice_db) = None"
    by (simp add: alice_db_simps alice_record_simps alice_payload_eq alice_token_def)
  have le: "t \<le> expiresAt alice_record"
    using that by (simp add: clock_seconds_def alice_record_simps)
  have ver: "verifyRefreshToken example_env alice_token t \<noteq> None"
    using that by (simp add: verify_alice_token)
  from fresh le ver show ?thesis
    by (simp add: usable_at_def)
qed

lemma alice_rotation_simps:
  "storedToken alice_rotation = alice_record"
  "newRefreshToken alice_rotation = ''refresh-secret|c1|alice@example.com|viewer|1|604801''"
  "owner alice_rotation = alice_user"
  "newAccessToken alice_rotation = generateAccessToken example_env alice_payload 1000"
  by (simp_all add: alice_rotation_def alice_payload_eq sign_refresh_second)

lemma alice_first_steps:
  "step example_env 1000 alice_db (Pending (Some alice_token)) = (Verified alice_token, alice_db)"
  "step example_env 1000 alice_db (Verified alice_token) = (Found alice_rotation, alice_db)"
  "step example_env 1001 alice_db (Found alice_rotation)
     = (Deleted alice_rotation (1001 + seven_days), deleted_db alice_db alice_record)"
proof -
  have u1000: "usable_at example_env alice_db alice_token alice_record alice_user 1000"
    by (rule alice_usable) (simp add: clock_seconds_def)
  note S = alice_setting [unfolded rotation_setting_def]
  show "step example_env 1000 alice_db (Pending (Some alice_token)) = (Verified alice_token, alice_db)"
    using S u1000 by (intro step_pending) (simp_all add: usable_at_def)
  show "step example_env 1000 alice_db (Verified alice_token) = (Found alice_rotation, alice_db)"
    unfolding alice_rotation_def alice_payload_eq [symmetric] using S u1000
    by (intro step_verified_present) (simp_all add: usable_at_def)
  show "step example_env 1001 alice_db (Found alice_rotation)
     = (Deleted alice_rotation (1001 + seven_days), deleted_db alice_db alice_record)"
    using step_found_present [of alice_rotation alice_db example_env 1001]
    by (simp add: alice_rotation_simps alice_db_simps alice_record_simps)
qed

text \<open>
  The schedule \<open>three_calls\<close> after its first five steps: the first call has deleted the
  record, the second has found it, the third has not started.
\<close>

lemma strict_prefix:
  "run example_env (alice_db, replicate 3 (Pending (Some alice_token))) (take 5 three_calls)
     = (deleted_db alice_db alice_record,
        [Deleted alice_rotation (1001 + seven_days), Found alice_rotation,
         Pending (Some alice_token)])"
  by (simp add: three_calls_def numeral_3_eq_3 alice_first_steps)

lemma strict_run:
  "run example_env (alice_db, replicate 3 (Pending (Some alice_token))) three_calls
     = (rotated_db alice_db alice_record ''refresh-secret|c1|alice@example.com|viewer|1|604801''
          ''c1'' (1001 + seven_days),
        [Done (success_response 200
                 (auth_payload alice_user (generateAccessToken example_env alice_payload 1000)
                    ''refresh-secret|c1|alice@example.com|viewer|1|604801'') 1002),
         Done (internal_error ''Failed to refresh token'' (error_message RecordNotFound) 1003),
         Done (invalid_refresh_token 1004)])"
proof -
  define d1 where "d1 = deleted_db alice_db alice_record"
  define win where "win = success_response 200
      (auth_payload (owner alice_rotation) (newAccessToken alice_rotation)
         (newRefreshToken alice_rotation)) 1002"
  define d2 where "d2 = d1\<lparr>refreshTokens := refreshTokens d1
      @ [\<lparr>token_id = new_id d1, token = newRefreshToken alice_rotation,
          token_userId = user_id (owner alice_rotation), expiresAt = 1001 + seven_days\<rparr>],
      next_id := Suc (next_id d1)\<rparr>"
  note rot = alice_rotation_simps
  note S = alice_setting [unfolded rotation_setting_def]
  note first = alice_first_steps [folded d1_def]
  have d1: "refreshTokens d1 = []" "new_id d1 = ''c3''"
    by (simp_all add: d1_def deleted_db_simps alice_db_simps)
  have s4: "step example_env 1002 d1 (Deleted alice_rotation (1001 + seven_days)) = (Done win, d2)"
    unfolding win_def d2_def by (intro step_deleted) (simp add: d1)
  have d2: "refreshTokens d2 = [\<lparr>token_id = ''c3'', token = newRefreshToken alice_rotation,
          token_userId = user_id (owner alice_rotation), expiresAt = 1001 + seven_days\<rparr>]"
    by (simp add: d2_def d1)
  have s5: "step example_env 1003 d2 (Found alice_rotation)
      = (Done (internal_error ''Failed to refresh token'' (error_message RecordNotFound) 1003), d2)"
    by (intro step_found_absent) (simp_all add: lenient_env_simps d2 rot alice_record_simps)
  have s6: "step example_env 1004 d2 (Pending (Some alice_token)) = (Verified alice_token, d2)"
    using S by (intro step_pending) (simp_all add: verify_alice_token clock_seconds_def)
  have s7: "step example_env 1004 d2 (Verified alice_token)
      = (Done (invalid_refresh_token 1004), d2)"
    by (intro step_verified_absent) (simp_all add: d2 rot alice_token_def)
  have fin: "run example_env (alice_db, replicate 3 (Pending (Some alice_token))) three_calls
      = (d2, [Done win,
              Done (internal_error ''Failed to refresh token'' (error_message RecordNotFound) 1003),
              Done (invalid_refresh_token 1004)])"
    by (simp add: three_calls_def numeral_3_eq_3 first s4 s5 s6 s7)
  have d2': "d2 = rotated_db alice_db alice_record
                    ''refresh-secret|c1|alice@example.com|viewer|1|604801'' ''c1'' (1001 + seven_days)"
    by (simp add: d2_def d1_def rotated_db_def deleted_db_def rot new_id_def alice_user_def)
  show ?thesis
    unfolding fin d2' by (simp add: win_def rot)
qed

lemma lenient_run:
  "map answered (snd (run lenient_env (alice_db, replicate 2 (Pending (Some alice_token))) two_calls))
     = [Some 200, Some 200]"
proof -
  define rotA where "rotA = \<lparr>storedToken = alice_record, owner = alice_user,
      newAccessToken = generateAccessToken lenient_env (token_payload alice_user) 1000,
      newRefreshToken = generateRefreshToken lenient_env (token_payload alice_user) 1000\<rparr>"
  define rotB where "rotB = \<lparr>storedToken = alice_record, owner = alice_user,
      newAccessToken = generateAccessToken lenient_env (token_payload alice_user) 2000,
      newRefreshToken = generateRefreshToken lenient_env (token_payload alice_user) 2000\<rparr>"
  define d1 where "d1 = deleted_db alice_db alice_record"
  define winA where "winA = success_response 200
      (auth_payload (owner rotA) (newAccessToken rotA) (newRefreshToken rotA)) 2002"
  define d2 where "d2 = d1\<lparr>refreshTokens := refreshTokens d1
      @ [\<lparr>token_id = new_id d1, token = newRefreshToken rotA,
          token_userId = user_id (owner rotA), expiresAt = 2001 + seven_days\<rparr>],
      next_id := Suc (next_id d1)\<rparr>"
  define d3 where "d3 = deleted_db d2 alice_record"
  define winB where "winB = success_response 200
      (auth_payload (owner rotB) (newAccessToken rotB) (newRefreshToken rotB)) 2004"
  define d4 where "d4 = d3\<lparr>refreshTokens := refreshTokens d3
      @ [\<lparr>token_id = new_id d3, token = newRefreshToken rotB,
          token_userId = user_id (owner rotB), expiresAt = 2003 + seven_days\<rparr>],
      next_id := Suc (next_id d3)\<rparr>"
  have rot: "storedToken rotA = alice_record" "storedToken rotB = alice_record"
    "newRefreshToken rotA = ''refresh-secret|c1|alice@example.com|viewer|1|604801''"
    "newRefreshToken rotB = ''refresh-secret|c1|alice@example.com|viewer|2|604802''"
    by (simp_all add: rotA_def rotB_def alice_payload_eq sign_refresh_second lenient_env_simps)
  note S = alice_setting [unfolded rotation_setting_def]
  have v: "verifyRefreshToken lenient_env alice_token t \<noteq> None" if "t \<le> 2000" for t
    using that by (simp add: lenient_env_simps verify_alice_token clock_seconds_def)
  have p1: "step lenient_env 1000 alice_db (Pending (Some alice_token)) = (Verified alice_token, alice_db)"
    using S v [of 1000] by (intro step_pending) simp_all
  have p2: "step lenient_env 2000 alice_db (Pending (Some alice_token)) = (Verified alice_token, alice_db)"
    using S v [of 2000] by (intro step_pending) simp_all
  have s1: "step lenient_env 1000 alice_db (Verified alice_token) = (Found rotA, alice_db)"
    unfolding rotA_def using S
    by (intro step_verified_present) (simp_all add: alice_record_simps)
  have s2: "step lenient_env 2000 alice_db (Verified alice_token) = (Found rotB, alice_db)"
    unfolding rotB_def using S
    by (intro step_verified_present) (simp_all add: alice_record_simps)
  have s3: "step lenient_env 2001 alice_db (Found rotA) = (Deleted rotA (2001 + seven_days), d1)"
    unfolding d1_def using step_found_lenient [of lenient_env 2001 alice_db rotA]
    by (simp add: rot lenient_env_simps)
  have d1: "refreshTokens d1 = []" "new_id d1 = ''c3''"
    by (simp_all add: d1_def deleted_db_simps alice_db_simps)
  have s4: "step lenient_env 2002 d1 (Deleted rotA (2001 + seven_days)) = (Done winA, d2)"
    unfolding winA_def d2_def by (intro step_deleted) (simp add: d1)
  have s5: "step lenient_env 2003 d2 (Found rotB) = (Deleted rotB (2003 + seven_days), d3)"
    unfolding d3_def using step_found_lenient [of lenient_env 2003 d2 rotB]
    by (simp add: rot lenient_env_simps)
  have d3: "refreshTokens d3 = [\<lparr>token_id = ''c3'', token = newRefreshToken rotA,
          token_userId = user_id (owner rotA), expiresAt = 2001 + seven_days\<rparr>]"
    by (simp add: d3_def d2_def deleted_db_simps d1 alice_record_simps)
  have s6: "step lenient_env 2004 d3 (Deleted rotB (2003 + seven_days)) = (Done winB, d4)"
    unfolding winB_def d4_def by (intro step_deleted) (simp add: d3 rot)
  have "run lenient_env (alice_db, replicate 2 (Pending (Some alice_token))) two_calls
      = (d4, [Done winA, Done winB])"
    by (simp add: two_calls_def numeral_2_eq_2 p1 p2 s1 s2 s3 s4 s5 s6)
  then show ?thesis
    by (simp add: answered_def winA_def winB_def success_response_def)
qed

text \<open>
  Claim C1, as stated, fails: the handler looks the record up, deletes it and creates
  the new one in three separate store calls. When two calls look the record up before
  either deletes it, the second \<open>delete\<close> finds nothing: the call is answered 500 where
  \<open>delete\<close> raises, not 401; and where \<open>delete\<close> does not raise, both calls succeed.
\<close>

theorem concurrent_refresh_second_call_gets_500:
  "map answered (snd (run example_env (alice_db, replicate 3 (Pending (Some alice_token))) three_calls))
     = [Some 200, Some 500, Some 401]
   \<and> map answered (snd (run lenient_env (alice_db, replicate 2 (Pending (Some alice_token))) two_calls))
     = [Some 200, Some 200]"
  using lenient_run
  by (simp add: strict_run answered_def success_response_def internal_error_def
      invalid_refresh_token_def error_response_def)

theorem concurrent_refresh_single_winner_witness:
  "rotated alice_user (generateAccessToken example_env alice_payload 1000)
     ''refresh-secret|c1|alice@example.com|viewer|1|604801''
     (snd (run example_env (alice_db, replicate 3 (Pending (Some alice_token))) three_calls) ! 0)
   \<and> failed_at_delete
       (snd (run example_env (alice_db, replicate 3 (Pending (Some alice_token))) three_calls) ! 1)
   \<and> rejected_at_lookup
       (snd (run example_env (alice_db, replicate 3 (Pending (Some alice_token))) three_calls) ! 2)
   \<and> map token
       (refreshTokens
          (fst (run example_env (alice_db, replicate 3 (Pending (Some alice_token))) three_calls)))
     = [''refresh-secret|c1|alice@example.com|viewer|1|604801'']"
proof -
  let ?start = "(alice_db, replicate 3 (Pending (Some alice_token)))"
  let ?run = "run example_env ?start three_calls"
  let ?s1 = "take 5 three_calls" and ?s2 = "drop 5 three_calls"
  let ?dm = "deleted_db alice_db alice_record"
  let ?cm = "[Deleted alice_rotation (1001 + seven_days), Found alice_rotation,
              Pending (Some alice_token)]"
  have usable: "list_all (\<lambda>(i, t). usable_at example_env alice_db alice_token alice_record alice_user t)
                  three_calls"
    by (simp add: three_calls_def alice_usable clock_seconds_def)
  have pair: "?run = (fst ?run, snd ?run)"
    by simp
  have answered: "list_all (\<lambda>c. answered c \<noteq> None) (snd ?run)"
    by (simp add: strict_run answered_def)
  have split: "three_calls = ?s1 @ ?s2"
    by simp
  have win: "rotated alice_user (generateAccessToken example_env alice_payload 1000)
               ''refresh-secret|c1|alice@example.com|viewer|1|604801'' (snd ?run ! 0)"
    by (simp add: strict_run rotated_def success_response_def)
  have not1: "\<not> rotated alice_user a b (snd ?run ! 1)"
    and not2: "\<not> rotated alice_user a b (snd ?run ! 2)" for a b
    by (simp_all add: strict_run rotated_def success_response_def internal_error_def
        invalid_refresh_token_def error_response_def)
  have found: "\<exists>rot. ?cm ! 1 = Found rot"
    by simp
  have waits: "awaiting_lookup alice_token (?cm ! 2)
               \<and> find (\<lambda>r. token r = alice_token) (refreshTokens ?dm) = None"
    by (simp add: awaiting_lookup_def deleted_db_simps alice_db_simps alice_record_simps)
  from concurrent_refresh_single_winner [OF alice_setting usable _ pair answered]
  obtain k new_access new_refresh expires where k: "k < 3"
    and w: "rotated alice_user new_access new_refresh (snd ?run ! k)"
    and st: "refreshTokens (fst ?run)
             = filter (\<lambda>r. token_id r \<noteq> token_id alice_record) (refreshTokens alice_db)
               @ [\<lparr>token_id = new_id alice_db, token = new_refresh,
                   token_userId = user_id alice_user, expiresAt = expires\<rparr>]"
    and order: "\<forall>s1 s2 dm cm j. three_calls = s1 @ s2
               \<and> run example_env ?start s1 = (dm, cm) \<and> j < 3 \<and> j \<noteq> k \<longrightarrow>
               ((\<exists>rot. cm ! j = Found rot) \<longrightarrow> failed_at_delete (snd ?run ! j))
             \<and> (awaiting_lookup alice_token (cm ! j)
                  \<and> find (\<lambda>r. token r = alice_token) (refreshTokens dm) = None
                \<longrightarrow> rejected_at_lookup (snd ?run ! j))"
    by auto
  have "k \<noteq> 1" and "k \<noteq> 2"
    using w not1 not2 by auto
  with k have k0: "k = 0"
    by simp
  from order [rule_format, of ?s1 ?s2 ?dm ?cm 1] split strict_prefix found k0
  have one: "failed_at_delete (snd ?run ! 1)"
    by simp
  from order [rule_format, of ?s1 ?s2 ?dm ?cm 2] split strict_prefix waits k0
  have two: "rejected_at_lookup (snd ?run ! 2)"
    by simp
  from w k0 win have "new_refresh = ''refresh-secret|c1|alice@example.com|viewer|1|604801''"
    by (simp add: strict_run rotated_def success_response_def auth_payload_def)
  with st have tokens: "map token (refreshTokens (fst ?run))
      = [''refresh-secret|c1|alice@example.com|viewer|1|604801'']"
    by (simp add: alice_db_simps alice_record_simps)
  from win one two tokens show ?thesis
    by simp
qed

end
